theory Spec2Isabelle
  imports
    Main
    "HOL-Library.AList"
    "HOL-Library.Sublist"
    "HOL-Library.Char_ord"
    "HOL-Library.List_Lexorder"
begin

section \<open>The CloudFront log analyzer (scripts/metrics/analyze-logs.py)\<close>

text \<open>
  A shallow embedding of the log-analysis pipeline: \<open>parse_log_line\<close>,
  \<open>get_visitor_id\<close>, \<open>load_logs\<close> and \<open>analyze_logs\<close>.

  Conventions.
  \<^item> A Python \<open>str\<close> is a \<open>string\<close>; a character stands for its code point, and the
    development covers code points below 256 (every character that the script's
    literals and patterns mention is ASCII). Comparison of strings is Python's:
    lexicographic by code point.
  \<^item> A Python \<open>dict\<close> is an association list with distinct keys in insertion order;
    \<open>d[k] = v\<close> is \<open>AList.update k v d\<close>, which overwrites in place or appends.
  \<^item> A raised exception is the \<open>Inl\<close> branch of a sum.
\<close>

subsection \<open>Strings\<close>

text \<open>\<open>str.isspace\<close> on the code points below 256.\<close>

definition py_isspace :: "char \<Rightarrow> bool" where
  "py_isspace c = (of_char c \<in> {9::nat, 10, 11, 12, 13, 28, 29, 30, 31, 32, 133, 160})"

text \<open>\<open>s.strip()\<close>: leading and trailing whitespace removed.\<close>

definition str_strip :: "string \<Rightarrow> string" where
  "str_strip s = rev (dropWhile py_isspace (rev (dropWhile py_isspace s)))"

text \<open>
  \<open>s.split(sep)\<close> for a one-character separator: the pieces between the separators,
  never an empty list (\<open>''.split(sep) == ['']\<close>). \<open>cur\<close> is the piece being read.
\<close>

fun split_from :: "string \<Rightarrow> char \<Rightarrow> string \<Rightarrow> string list" where
  "split_from cur sep [] = [cur]"
| "split_from cur sep (c # cs) =
     (if c = sep then cur # split_from [] sep cs else split_from (cur @ [c]) sep cs)"

definition str_split :: "char \<Rightarrow> string \<Rightarrow> string list" where
  "str_split sep s = split_from [] sep s"

text \<open>\<open>s.startswith(p)\<close> is \<open>prefix p s\<close>, \<open>sub in s\<close> is \<open>sublist sub s\<close>.\<close>

text \<open>\<open>s.lower()\<close> on the code points below 256.\<close>

definition py_lower_char :: "char \<Rightarrow> char" where
  "py_lower_char c =
     (let n = (of_char c :: nat)
      in if (65 \<le> n \<and> n \<le> 90) \<or> (192 \<le> n \<and> n \<le> 222 \<and> n \<noteq> 215)
         then char_of (n + 32) else c)"

definition str_lower :: "string \<Rightarrow> string" where
  "str_lower s = map py_lower_char s"

definition TAB :: char where
  "TAB = CHR 0x09"

definition LF :: char where
  "LF = CHR 0x0A"

subsection \<open>Dictionaries and errors\<close>

type_synonym pydict = "(string \<times> string) list"

datatype py_error = KeyError string | OverflowError | ValueError

text \<open>\<open>d[k]\<close>\<close>

definition getitem :: "pydict \<Rightarrow> string \<Rightarrow> py_error + string" where
  "getitem d k = (case map_of d k of None \<Rightarrow> Inl (KeyError k) | Some v \<Rightarrow> Inr v)"

text \<open>\<open>d.get(k, default)\<close>\<close>

definition dict_get :: "pydict \<Rightarrow> string \<Rightarrow> string \<Rightarrow> string" where
  "dict_get d k dflt = (case map_of d k of None \<Rightarrow> dflt | Some v \<Rightarrow> v)"

text \<open>
  \<open>{k: v for k, v in items}\<close> and \<open>dict(items)\<close>: the items are stored one after
  the other, a repeated key keeps its place and takes the later value.
\<close>

definition dict_of_items :: "('k \<times> 'v) list \<Rightarrow> ('k \<times> 'v) list" where
  "dict_of_items items = foldl (\<lambda>d (k, v). AList.update k v d) [] items"

text \<open>
  \<open>d[k] = f(d[k])\<close> on a \<open>defaultdict\<close> whose factory gives \<open>dflt\<close>: a key met for
  the first time is appended with \<open>f dflt\<close>.
\<close>

fun dd_modify :: "'v \<Rightarrow> ('v \<Rightarrow> 'v) \<Rightarrow> 'k \<Rightarrow> ('k \<times> 'v) list \<Rightarrow> ('k \<times> 'v) list" where
  "dd_modify dflt f k [] = [(k, f dflt)]"
| "dd_modify dflt f k ((k', v) # kvs) =
     (if k' = k then (k', f v) # kvs else (k', v) # dd_modify dflt f k kvs)"

text \<open>Sequencing of computations that may raise.\<close>

definition and_then :: "py_error + 'a \<Rightarrow> ('a \<Rightarrow> py_error + 'b) \<Rightarrow> py_error + 'b" where
  "and_then m f = (case m of Inl e \<Rightarrow> Inl e | Inr x \<Rightarrow> f x)"

text \<open>\<open>[f(x) for x in xs]\<close> and \<open>[x for x in xs if p(x)]\<close>, where \<open>f\<close> and \<open>p\<close> may raise.\<close>

fun list_comp :: "('a \<Rightarrow> py_error + 'b) \<Rightarrow> 'a list \<Rightarrow> py_error + 'b list" where
  "list_comp f [] = Inr []"
| "list_comp f (x # xs) =
     (case f x of
        Inl e \<Rightarrow> Inl e
      | Inr y \<Rightarrow> (case list_comp f xs of Inl e \<Rightarrow> Inl e | Inr ys \<Rightarrow> Inr (y # ys)))"

fun list_comp_if :: "('a \<Rightarrow> py_error + bool) \<Rightarrow> 'a list \<Rightarrow> py_error + 'a list" where
  "list_comp_if p [] = Inr []"
| "list_comp_if p (x # xs) =
     (case p x of
        Inl e \<Rightarrow> Inl e
      | Inr b \<Rightarrow> (case list_comp_if p xs of
                   Inl e \<Rightarrow> Inl e
                 | Inr ys \<Rightarrow> Inr (if b then x # ys else ys)))"

text \<open>\<open>min(xs)\<close> and \<open>max(xs)\<close> of strings; both raise on an empty argument.\<close>

fun py_min :: "string list \<Rightarrow> py_error + string" where
  "py_min [] = Inl ValueError"
| "py_min (x # xs) = Inr (fold min xs x)"

fun py_max :: "string list \<Rightarrow> py_error + string" where
  "py_max [] = Inl ValueError"
| "py_max (x # xs) = Inr (fold max xs x)"

subsection \<open>The record parser\<close>

definition FIELDS :: "string list" where
  "FIELDS =
    [''date'', ''time'', ''edge_location'', ''bytes'', ''client_ip'', ''method'', ''host'',
     ''uri_stem'', ''status'', ''referer'', ''user_agent'', ''query_string'', ''cookie'',
     ''edge_result_type'', ''request_id'', ''host_header'', ''protocol'', ''cs_bytes'',
     ''time_taken'', ''forwarded_for'', ''ssl_protocol'', ''ssl_cipher'',
     ''edge_response_result_type'', ''protocol_version'', ''fle_status'',
     ''fle_encrypted_fields'', ''c_port'', ''time_to_first_byte'',
     ''edge_detailed_result_type'', ''content_type'', ''content_len'',
     ''range_start'', ''range_end'']"

definition parse_log_line :: "string \<Rightarrow> pydict option" where
  "parse_log_line line =
     (if prefix ''#'' line then None
      else
        let parts = str_split TAB (str_strip line)
        in if length parts < 10 then None
           else Some (dict_of_items
                        (map (\<lambda>i. (FIELDS ! i, if i < length parts then parts ! i else ''''))
                           [0..<length FIELDS])))"

subsection \<open>The visitor identity resolver\<close>

text \<open>The character class \<open>[a-f0-9-]\<close>.\<close>

definition idchar :: "char \<Rightarrow> bool" where
  "idchar c = ((CHR ''a'' \<le> c \<and> c \<le> CHR ''f'') \<or> (CHR ''0'' \<le> c \<and> c \<le> CHR ''9'') \<or> c = CHR ''-'')"

text \<open>
  The pattern \<open>mid=([a-f0-9-]+)\<close> tried at the start of \<open>s\<close>: group 1 of the match.
  The class is followed by nothing, so the greedy match is the longest run.
\<close>

definition mid_match :: "string \<Rightarrow> string option" where
  "mid_match s =
     (if prefix ''mid='' s \<and> takeWhile idchar (drop 4 s) \<noteq> []
      then Some (takeWhile idchar (drop 4 s)) else None)"

text \<open>\<open>re.search\<close>: the match at the leftmost position that has one.\<close>

fun mid_search :: "string \<Rightarrow> string option" where
  "mid_search [] = None"
| "mid_search (c # cs) =
     (case mid_match (c # cs) of Some g \<Rightarrow> Some g | None \<Rightarrow> mid_search cs)"

definition get_visitor_id :: "pydict \<Rightarrow> py_error + string" where
  "get_visitor_id record =
     (let cookie = dict_get record ''cookie'' ''''
      in case mid_search cookie of
           Some g \<Rightarrow> Inr g
         | None \<Rightarrow> getitem record ''client_ip'')"

subsection \<open>The log loader\<close>

text \<open>
  The loop over the lines of one opened file. \<open>lines\<close> are the lines the file yields
  before it ends or a read fails (the failure is caught, reported on the diagnostic
  stream and ends this file only; the records already appended stay). An exception
  raised in the body is caught by the same handler.
\<close>

fun read_lines :: "string option \<Rightarrow> pydict list \<Rightarrow> string list \<Rightarrow> pydict list" where
  "read_lines cutoff_date records [] = records"
| "read_lines cutoff_date records (line # lines) =
     (case parse_log_line line of
        None \<Rightarrow> read_lines cutoff_date records lines
      | Some record \<Rightarrow>
          if record = [] then read_lines cutoff_date records lines
          else (case cutoff_date of
                  None \<Rightarrow> read_lines cutoff_date (records @ [record]) lines
                | Some c \<Rightarrow>
                    if c = [] then read_lines cutoff_date (records @ [record]) lines
                    else (case getitem record ''date'' of
                            Inl e \<Rightarrow> records
                          | Inr d \<Rightarrow>
                              if d < c then read_lines cutoff_date records lines
                              else read_lines cutoff_date (records @ [record]) lines)))"

text \<open>
  \<open>load_logs\<close>. The directory is given by \<open>files\<close>: for each entry that is opened, in
  enumeration order, the lines it yields. \<open>today_minus n\<close> stands for the library call
  \<open>(datetime.now() - timedelta(days=n)).strftime('%Y-%m-%d')\<close>, which raises
  \<open>OverflowError\<close> when the date is out of range. \<open>if days:\<close> is false for \<open>None\<close>
  and for \<open>0\<close>.
\<close>

definition load_logs ::
  "(int \<Rightarrow> py_error + string) \<Rightarrow> string list list \<Rightarrow> int option \<Rightarrow> py_error + pydict list" where
  "load_logs today_minus files days =
     and_then
       (case days of
          None \<Rightarrow> Inr None
        | Some n \<Rightarrow> if n = 0 then Inr None
                   else and_then (today_minus n) (\<lambda>s. Inr (Some s)))
       (\<lambda>cutoff_date. Inr (foldl (read_lines cutoff_date) [] files))"

subsection \<open>The metrics aggregator\<close>

text \<open>
  The nested dictionaries of the report, one record per dictionary literal. The fields
  carry the keys of the source, but for \<open>total\<close>, \<open>unique\<close>, \<open>start\<close>, \<open>end\<close> and
  \<open>note\<close> (here \<open>total_count\<close>, \<open>unique_count\<close>, \<open>start_date\<close>, \<open>end_date\<close>,
  \<open>note_text\<close>) and the \<open>unique_visitors\<close> of a day (here \<open>day_unique_visitors\<close>). The
  lists of \<open>{'path': p, 'count': c}\<close> and \<open>{'location': loc, 'count': c}\<close> are lists of
  pairs; \<open>None\<close> for the note is \<open>None\<close>.
\<close>

record counts_t =
  total_count :: nat
  unique_count :: nat

record date_range_t =
  start_date :: string
  end_date :: string

record summary_t =
  total_requests :: nat
  unique_visitors :: nat
  successful_requests :: nat
  date_range :: date_range_t

record page_views_t =
  homepage :: counts_t
  event_details :: counts_t
  unique_events_viewed :: nat

record api_usage_t =
  total_api_calls :: nat
  calendar_requests :: nat
  location_searches :: nat

record external_clicks_t =
  visit_store_clicks :: counts_t
  note_text :: "string option"

record daily_t =
  requests :: nat
  day_unique_visitors :: nat

record metrics_t =
  summary :: summary_t
  page_views :: page_views_t
  api_usage :: api_usage_t
  external_clicks :: external_clicks_t
  daily_stats :: "(string \<times> daily_t) list"
  top_pages :: "(string \<times> nat) list"
  top_edge_locations :: "(string \<times> nat) list"
  browsers :: "(string \<times> nat) list"

text \<open>The result of \<open>analyze_logs\<close>: \<open>{'error': msg}\<close> or the metrics.\<close>

datatype report = ErrorReport string | Metrics metrics_t

text \<open>
  \<open>$\<close> of a pattern compiled without flags holds at the end of the string and just
  before a line feed that ends the string.
\<close>

definition at_end :: "string \<Rightarrow> bool" where
  "at_end rest = (rest = [] \<or> rest = [LF])"

text \<open>\<open>re.compile(r'^/events?/[a-f0-9-]+$').match(s)\<close>, as a truth value.\<close>

definition event_pattern_match :: "string \<Rightarrow> bool" where
  "event_pattern_match s =
     (prefix ''/event'' s \<and>
      (let t = drop 6 s;
           u = (if prefix ''s'' t then drop 1 t else t)
       in prefix ''/'' u \<and> takeWhile idchar (drop 1 u) \<noteq> []
          \<and> at_end (dropWhile idchar (drop 1 u))))"

text \<open>\<open>re.compile(r'/(visit|register)$').search(s)\<close>, as a truth value.\<close>

definition visit_pattern_search :: "string \<Rightarrow> bool" where
  "visit_pattern_search s =
     (suffix ''/visit'' s \<or> suffix ''/register'' s
      \<or> suffix (''/visit'' @ [LF]) s \<or> suffix (''/register'' @ [LF]) s)"

text \<open>A test on one field of a record: \<open>p(r[key])\<close>.\<close>

definition field_test :: "string \<Rightarrow> (string \<Rightarrow> bool) \<Rightarrow> pydict \<Rightarrow> py_error + bool" where
  "field_test key p r = and_then (getitem r key) (\<lambda>s. Inr (p s))"

text \<open>
  The loop \<open>for r in records: daily_traffic[r['date']]['requests'] += 1;
  daily_traffic[r['date']]['visitors'].add(get_visitor_id(r))\<close>. An entry is the pair
  of the request count and the visitor set.
\<close>

fun daily_loop ::
  "(string \<times> nat \<times> string set) list \<Rightarrow> pydict list \<Rightarrow> py_error + (string \<times> nat \<times> string set) list" where
  "daily_loop daily_traffic [] = Inr daily_traffic"
| "daily_loop daily_traffic (r # rs) =
     (case getitem r ''date'' of
        Inl e \<Rightarrow> Inl e
      | Inr d \<Rightarrow>
          (case get_visitor_id r of
             Inl e \<Rightarrow> Inl e
           | Inr v \<Rightarrow>
               daily_loop
                 (dd_modify (0, {}) (\<lambda>(n, vs). (n, insert v vs)) d
                    (dd_modify (0, {}) (\<lambda>(n, vs). (n + 1, vs)) d daily_traffic))
                 rs))"

text \<open>The loops \<open>for r in records: counts[r[key]] += 1\<close> (top pages, edge locations).\<close>

fun count_loop :: "string \<Rightarrow> (string \<times> nat) list \<Rightarrow> pydict list \<Rightarrow> py_error + (string \<times> nat) list" where
  "count_loop key counts [] = Inr counts"
| "count_loop key counts (r # rs) =
     (case getitem r key of
        Inl e \<Rightarrow> Inl e
      | Inr k \<Rightarrow> count_loop key (dd_modify 0 Suc k counts) rs)"

text \<open>The browser of a user agent: the \<open>if\<close>/\<open>elif\<close> chain in the body of the last loop.\<close>

definition browser_of :: "string \<Rightarrow> string" where
  "browser_of ua =
     (if sublist ''Chrome'' ua then ''Chrome''
      else if sublist ''Firefox'' ua then ''Firefox''
      else if sublist ''Safari'' ua \<and> \<not> sublist ''Chrome'' ua then ''Safari''
      else if sublist ''Edge'' ua then ''Edge''
      else if sublist ''bot'' (str_lower ua) \<or> sublist ''crawler'' (str_lower ua) then ''Bot''
      else ''Other'')"

fun browser_loop :: "(string \<times> nat) list \<Rightarrow> pydict list \<Rightarrow> py_error + (string \<times> nat) list" where
  "browser_loop browser_counts [] = Inr browser_counts"
| "browser_loop browser_counts (r # rs) =
     (case getitem r ''user_agent'' of
        Inl e \<Rightarrow> Inl e
      | Inr ua \<Rightarrow> browser_loop (dd_modify 0 Suc (browser_of ua) browser_counts) rs)"

text \<open>
  \<open>sorted(items, key=lambda x: -x[1])\<close>. Python's sort is stable, and a stable sort
  is determined by the list and the key, so it is \<open>sort_key\<close>.
\<close>

definition sorted_by_count_desc :: "(string \<times> nat) list \<Rightarrow> (string \<times> nat) list" where
  "sorted_by_count_desc items = sort_key (\<lambda>x. - int (snd x)) items"

text \<open>
  \<open>analyze_logs\<close>. \<open>sorted(daily_traffic.items())\<close> compares pairs; the dates are the
  keys of a dictionary, hence distinct, and decide every comparison.
\<close>

definition analyze_logs :: "pydict list \<Rightarrow> py_error + report" where
  "analyze_logs records =
    (if records = [] then Inr (ErrorReport ''No log records found'')
     else
      and_then (list_comp get_visitor_id records) (\<lambda>visitors.
      and_then (list_comp_if (field_test ''status'' (\<lambda>s. prefix ''2'' s \<or> prefix ''3'' s)) records)
        (\<lambda>successful.
      and_then (list_comp_if (field_test ''uri_stem'' (\<lambda>s. s = ''/'' \<or> s = ''/index.html'')) records)
        (\<lambda>homepage_l.
      and_then (list_comp get_visitor_id homepage_l) (\<lambda>homepage_visitors.
      and_then (list_comp_if (field_test ''uri_stem'' event_pattern_match) records) (\<lambda>event_pages.
      and_then (list_comp get_visitor_id event_pages) (\<lambda>event_page_visitors.
      and_then (list_comp (\<lambda>r. getitem r ''uri_stem'') event_pages) (\<lambda>unique_events.
      and_then (list_comp_if (field_test ''uri_stem'' (prefix ''/api/'')) records) (\<lambda>api_calls.
      and_then (list_comp_if (field_test ''uri_stem'' (\<lambda>s. s = ''/api/events'')) api_calls)
        (\<lambda>calendar_api.
      and_then (list_comp_if (field_test ''uri_stem'' (prefix ''/api/events/geocode'')) api_calls)
        (\<lambda>geocode_api.
      and_then (list_comp_if (field_test ''uri_stem'' visit_pattern_search) records) (\<lambda>visit_clicks.
      and_then (list_comp get_visitor_id visit_clicks) (\<lambda>visit_click_visitors.
      and_then (daily_loop [] records) (\<lambda>daily_traffic.
      and_then (count_loop ''uri_stem'' [] records) (\<lambda>page_counts.
      and_then (count_loop ''edge_location'' [] records) (\<lambda>edge_counts.
      and_then (browser_loop [] records) (\<lambda>browser_counts.
      and_then (list_comp (\<lambda>r. getitem r ''date'') records) (\<lambda>dates.
      and_then (py_min dates) (\<lambda>first_date.
      and_then (py_max dates) (\<lambda>last_date.
        Inr (Metrics
          \<lparr> summary =
              \<lparr> total_requests = length records,
                unique_visitors = card (set visitors),
                successful_requests = length successful,
                date_range = \<lparr> start_date = first_date, end_date = last_date \<rparr> \<rparr>,
            page_views =
              \<lparr> homepage =
                  \<lparr> total_count = length homepage_l,
                    unique_count = card (set homepage_visitors) \<rparr>,
                event_details =
                  \<lparr> total_count = length event_pages,
                    unique_count = card (set event_page_visitors) \<rparr>,
                unique_events_viewed = card (set unique_events) \<rparr>,
            api_usage =
              \<lparr> total_api_calls = length api_calls,
                calendar_requests = length calendar_api,
                location_searches = length geocode_api \<rparr>,
            external_clicks =
              \<lparr> visit_store_clicks =
                  \<lparr> total_count = length visit_clicks,
                    unique_count = card (set visit_click_visitors) \<rparr>,
                note_text = (if visit_clicks = [] then Some ''Requires /visit tracking endpoint''
                             else None) \<rparr>,
            daily_stats =
              dict_of_items
                (map (\<lambda>(date, data). (date, \<lparr> requests = fst data,
                                               day_unique_visitors = card (snd data) \<rparr>))
                   (sort_key fst daily_traffic)),
            top_pages = take 15 (sorted_by_count_desc page_counts),
            top_edge_locations = take 10 (sorted_by_count_desc edge_counts),
            browsers = dict_of_items (sorted_by_count_desc browser_counts)
          \<rparr>)))))))))))))))))))))"

subsection \<open>Records that have every field\<close>

text \<open>
  A parsed record has the 33 keys, so no lookup in it raises. On such records the
  lookups are total and the loops of \<open>analyze_logs\<close> are folds; the properties below are
  stated with them.
\<close>

definition has_fields :: "pydict \<Rightarrow> bool" where
  "has_fields r = (set FIELDS \<subseteq> fst ` set r)"

definition field_of :: "string \<Rightarrow> pydict \<Rightarrow> string" where
  "field_of k r = dict_get r k ''''"

definition visitor_of :: "pydict \<Rightarrow> string" where
  "visitor_of r =
     (case mid_search (field_of ''cookie'' r) of
        Some g \<Rightarrow> g
      | None \<Rightarrow> field_of ''client_ip'' r)"

definition counts_of :: "string list \<Rightarrow> (string \<times> nat) list" where
  "counts_of ks = foldl (\<lambda>counts k. dd_modify 0 Suc k counts) [] ks"

definition daily_step :: "(string \<times> nat \<times> string set) list \<Rightarrow> pydict \<Rightarrow> (string \<times> nat \<times> string set) list" where
  "daily_step daily_traffic r =
     dd_modify (0, {}) (\<lambda>(n, vs). (n, insert (visitor_of r) vs)) (field_of ''date'' r)
       (dd_modify (0, {}) (\<lambda>(n, vs). (n + 1, vs)) (field_of ''date'' r) daily_traffic)"

text \<open>The record that \<open>parse_log_line\<close> builds from the parts of a line.\<close>

definition record_of_parts :: "string list \<Rightarrow> pydict" where
  "record_of_parts parts =
     map (\<lambda>i. (FIELDS ! i, if i < length parts then parts ! i else '''')) [0..<length FIELDS]"

subsection \<open>Concrete inputs\<close>

text \<open>A log line of thirteen fields, ended by a line feed, and the record it parses to.\<close>

definition example_line :: string where
  "example_line =
     ''2024-01-05'' @ [TAB] @ ''10:00:00'' @ [TAB] @ ''IAD89-C1'' @ [TAB] @ ''512'' @ [TAB] @
     ''1.2.3.4'' @ [TAB] @ ''GET'' @ [TAB] @ ''d1.cloudfront.net'' @ [TAB] @ ''/'' @ [TAB] @
     ''200'' @ [TAB] @ ''-'' @ [TAB] @ ''Mozilla/5.0%20Chrome/120.0%20Safari/537.36'' @ [TAB] @
     ''-'' @ [TAB] @ ''mid=3f2a-77c1'' @ [LF]"

definition example_record :: pydict where
  "example_record =
     record_of_parts
       [''2024-01-05'', ''10:00:00'', ''IAD89-C1'', ''512'', ''1.2.3.4'', ''GET'',
        ''d1.cloudfront.net'', ''/'', ''200'', ''-'',
        ''Mozilla/5.0%20Chrome/120.0%20Safari/537.36'', ''-'', ''mid=3f2a-77c1'']"

text \<open>A click on a store link, a day later, from another address and without a cookie.\<close>

definition visit_record :: pydict where
  "visit_record =
     record_of_parts
       [''2024-01-06'', ''09:30:00'', ''LHR50-P2'', ''128'', ''5.6.7.8'', ''GET'',
        ''d1.cloudfront.net'', ''/events/ab12/visit'', ''302'', ''-'',
        ''Mozilla/5.0%20Firefox/121.0'', ''-'', ''-'']"

definition example_records :: "pydict list" where
  "example_records = [example_record, visit_record]"

text \<open>A record whose cookie is \<open>mid=abc123-def456\<close>.\<close>

definition abc_mid_record :: pydict where
  "abc_mid_record =
     record_of_parts
       [''2024-01-05'', ''10:00:00'', ''IAD89-C1'', ''512'', ''9.9.9.9'', ''GET'',
        ''d1.cloudfront.net'', ''/'', ''200'', ''-'', ''Mozilla/5.0'', ''-'',
        ''mid=abc123-def456'']"

text \<open>A record whose cookie carries an id in capital hexadecimal digits.\<close>

definition capital_mid_record :: pydict where
  "capital_mid_record =
     record_of_parts
       [''2024-01-05'', ''10:00:00'', ''IAD89-C1'', ''512'', ''1.2.3.4'', ''GET'',
        ''d1.cloudfront.net'', ''/'', ''200'', ''-'', ''Mozilla/5.0'', ''-'', ''mid=AB12-CD34'']"

text \<open>A record with a second cookie whose name ends in \<open>mid\<close>.\<close>

definition two_cookies_record :: pydict where
  "two_cookies_record =
     record_of_parts
       [''2024-01-05'', ''10:00:00'', ''IAD89-C1'', ''512'', ''1.2.3.4'', ''GET'',
        ''d1.cloudfront.net'', ''/'', ''200'', ''-'', ''Mozilla/5.0'', ''-'',
        ''pmid=0;%20mid=abc123-def456'']"

text \<open>
  The answers of \<open>(datetime.now() - timedelta(days=n)).strftime('%Y-%m-%d')\<close> on
  2024-06-15 for the windows 0, 1 and 30. No other window is asked below; the last
  branch only makes the function total.
\<close>

definition today_minus_20240615 :: "int \<Rightarrow> py_error + string" where
  "today_minus_20240615 n =
     (if n = 0 then Inr ''2024-06-15''
      else if n = 1 then Inr ''2024-06-14''
      else if n = 30 then Inr ''2024-05-16''
      else Inl OverflowError)"

section \<open>Properties\<close>

subsection \<open>The schema\<close>

lemma length_FIELDS: "length FIELDS = 33"
  by (simp add: FIELDS_def)

lemma distinct_FIELDS: "distinct FIELDS"
  by (simp add: FIELDS_def)

subsection \<open>Dictionaries\<close>

lemma update_fresh: "k \<notin> fst ` set al \<Longrightarrow> AList.update k v al = al @ [(k, v)]"
  by (induction al) auto

lemma foldl_update_distinct:
  "distinct (map fst items) \<Longrightarrow> fst ` set items \<inter> fst ` set acc = {} \<Longrightarrow>
   foldl (\<lambda>d (k, v). AList.update k v d) acc items = acc @ items"
proof (induction items arbitrary: acc)
  case Nil
  then show ?case by simp
next
  case (Cons kv items)
  obtain k v where kv: "kv = (k, v)" by (cases kv)
  have fresh: "AList.update k v acc = acc @ [(k, v)]"
    using Cons.prems(2) by (simp add: update_fresh kv)
  have "foldl (\<lambda>d (k, v). AList.update k v d) (acc @ [(k, v)]) items = (acc @ [(k, v)]) @ items"
    using Cons.prems by (intro Cons.IH) (auto simp: kv image_Un)
  then show ?case by (simp add: fresh kv)
qed

lemma dict_of_items_distinct: "distinct (map fst items) \<Longrightarrow> dict_of_items items = items"
  using foldl_update_distinct [of items "[]"] by (simp add: dict_of_items_def)

lemma dd_modify_keys:
  "map fst (dd_modify dflt f k kvs) = (if k \<in> fst ` set kvs then map fst kvs else map fst kvs @ [k])"
  by (induction kvs) (auto simp: rev_image_eqI)

lemma dd_modify_keys_set: "fst ` set (dd_modify dflt f k kvs) = insert k (fst ` set kvs)"
proof -
  have "set (map fst (dd_modify dflt f k kvs)) = insert k (fst ` set kvs)"
    unfolding dd_modify_keys by auto
  then show ?thesis by simp
qed

lemma dd_modify_map_of:
  "map_of (dd_modify dflt f k kvs) k' =
     (if k' = k then Some (f (case map_of kvs k of None \<Rightarrow> dflt | Some v \<Rightarrow> v)) else map_of kvs k')"
  by (induction kvs) auto

lemma dd_modify_sum:
  fixes c :: "'v \<Rightarrow> nat"
  assumes "\<And>v. c (f v) = c v + n" and "c dflt = 0"
  shows "sum_list (map (\<lambda>kv. c (snd kv)) (dd_modify dflt f k kvs)) = sum_list (map (\<lambda>kv. c (snd kv)) kvs) + n"
  using assms by (induction kvs) auto

lemma counts_of_snoc: "counts_of (ks @ [k]) = dd_modify 0 Suc k (counts_of ks)"
  by (simp add: counts_of_def)

lemma counts_of_keys_set: "fst ` set (counts_of ks) = set ks"
proof (induction ks rule: rev_induct)
  case Nil
  then show ?case by (simp add: counts_of_def)
next
  case (snoc k ks)
  have "set (map fst (counts_of (ks @ [k]))) = insert k (set ks)"
    unfolding counts_of_snoc dd_modify_keys using snoc.IH by auto
  then show ?case by simp
qed

lemma counts_of_distinct: "distinct (map fst (counts_of ks))"
proof (induction ks rule: rev_induct)
  case Nil
  then show ?case by (simp add: counts_of_def)
next
  case (snoc k ks)
  then show ?case
    unfolding counts_of_snoc dd_modify_keys by simp
qed

lemma counts_of_map_of:
  "map_of (counts_of ks) k = (if k \<in> set ks then Some (count_list ks k) else None)"
proof (induction ks rule: rev_induct)
  case Nil
  then show ?case by (simp add: counts_of_def)
next
  case (snoc x ks)
  then show ?case
    unfolding counts_of_snoc dd_modify_map_of by (auto simp: count_list_0_iff)
qed

lemma counts_of_sum: "sum_list (map snd (counts_of ks)) = length ks"
proof (induction ks rule: rev_induct)
  case Nil
  then show ?case by (simp add: counts_of_def)
next
  case (snoc x ks)
  have "sum_list (map (\<lambda>kv. id (snd kv)) (dd_modify 0 Suc x (counts_of ks)))
          = sum_list (map (\<lambda>kv. id (snd kv)) (counts_of ks)) + 1"
    by (rule dd_modify_sum) simp_all
  then show ?case
    using snoc.IH by (simp add: counts_of_snoc)
qed

lemma count_list_map: "count_list (map f xs) b = length (filter (\<lambda>x. f x = b) xs)"
  by (induction xs) simp_all

text \<open>
  The position of the first occurrence of \<open>a\<close> in \<open>xs\<close> is the length of
  \<open>takeWhile (\<lambda>q. q \<noteq> a) xs\<close>. The keys of a counting dictionary stand in the order
  of their first occurrence.
\<close>

lemma takeWhile_neq_less: "a \<in> set xs \<Longrightarrow> length (takeWhile (\<lambda>q. q \<noteq> a) xs) < length xs"
  by (induction xs) auto

lemma takeWhile_neq_snoc:
  "a \<in> set xs \<Longrightarrow> takeWhile (\<lambda>q. q \<noteq> a) (xs @ ys) = takeWhile (\<lambda>q. q \<noteq> a) xs"
  by (induction xs) auto

lemma takeWhile_neq_all: "a \<notin> set xs \<Longrightarrow> takeWhile (\<lambda>q. q \<noteq> a) (xs @ a # ys) = xs"
  by (induction xs) auto

lemma counts_of_first_order:
  "sorted_wrt (\<lambda>a b. length (takeWhile (\<lambda>q. q \<noteq> a) ks) < length (takeWhile (\<lambda>q. q \<noteq> b) ks))
     (map fst (counts_of ks))"
proof (induction ks rule: rev_induct)
  case Nil
  then show ?case by (simp add: counts_of_def)
next
  case (snoc k ks)
  have keys: "set (map fst (counts_of ks)) = set ks"
    using counts_of_keys_set [of ks] by simp
  have old: "sorted_wrt (\<lambda>a b. length (takeWhile (\<lambda>q. q \<noteq> a) (ks @ [k]))
                                < length (takeWhile (\<lambda>q. q \<noteq> b) (ks @ [k])))
               (map fst (counts_of ks))"
    by (rule sorted_wrt_mono_rel [OF _ snoc.IH]) (simp add: counts_of_keys_set takeWhile_neq_snoc)
  show ?case
  proof (cases "k \<in> set ks")
    case True
    then show ?thesis
      using old counts_of_keys_set [of ks] by (simp add: counts_of_snoc dd_modify_keys)
  next
    case False
    have "length (takeWhile (\<lambda>q. q \<noteq> a) (ks @ [k])) < length (takeWhile (\<lambda>q. q \<noteq> k) (ks @ [k]))"
      if "a \<in> set ks" for a
      using that False by (simp add: takeWhile_neq_snoc takeWhile_neq_all takeWhile_neq_less)
    then show ?thesis
      using old False counts_of_keys_set [of ks] keys
      by (simp add: counts_of_snoc dd_modify_keys sorted_wrt_append)
  qed
qed

subsection \<open>Sorting\<close>

lemma sum_list_insort_key:
  "sum_list (map (h :: 'a \<Rightarrow> nat) (insort_key f x xs)) = h x + sum_list (map h xs)"
  by (induction xs) simp_all

lemma sum_list_sort_key: "sum_list (map (h :: 'a \<Rightarrow> nat) (sort_key f xs)) = sum_list (map h xs)"
  by (induction xs) (simp_all add: sum_list_insort_key)

lemma distinct_map_sort_key: "distinct (map g (sort_key f xs)) = distinct (map g xs)"
  by (simp add: distinct_map)

lemma filter_sorted_wrt_nth:
  "sorted_wrt R (filter P xs) \<Longrightarrow> i < j \<Longrightarrow> j < length xs \<Longrightarrow> P (xs ! i) \<Longrightarrow> P (xs ! j)
   \<Longrightarrow> R (xs ! i) (xs ! j)"
proof (induction xs arbitrary: i j)
  case Nil
  then show ?case by simp
next
  case (Cons x xs)
  show ?case
  proof (cases i)
    case 0
    with Cons.prems obtain j' where j: "j = Suc j'" and j': "j' < length xs"
      by (cases j) auto
    with Cons.prems 0 have "xs ! j' \<in> set (filter P xs)" and "P x"
      by auto
    with Cons.prems(1) 0 j show ?thesis by auto
  next
    case (Suc i')
    with Cons.prems obtain j' where j: "j = Suc j'" and j': "j' < length xs" and ij: "i' < j'"
      by (cases j) auto
    have "sorted_wrt R (filter P xs)"
      using Cons.prems(1) by (cases "P x") auto
    from Cons.IH [OF this ij j'] Cons.prems Suc j show ?thesis by auto
  qed
qed

subsection \<open>The record parser\<close>

lemma split_from_nonempty: "split_from cur sep s \<noteq> []"
  by (induction s arbitrary: cur) auto

lemma parse_log_line_Some:
  assumes "\<not> prefix ''#'' line" and "10 \<le> length (str_split TAB (str_strip line))"
  shows "parse_log_line line =
           Some (map (\<lambda>i. (FIELDS ! i,
                            if i < length (str_split TAB (str_strip line))
                            then str_split TAB (str_strip line) ! i else ''''))
                   [0..<length FIELDS])"
proof -
  have "distinct (map fst (map (\<lambda>i. (FIELDS ! i,
                            if i < length (str_split TAB (str_strip line))
                            then str_split TAB (str_strip line) ! i else ''''))
                   [0..<length FIELDS]))"
    using distinct_FIELDS by (simp add: comp_def map_nth)
  then show ?thesis
    using assms by (simp add: parse_log_line_def Let_def dict_of_items_distinct)
qed

lemma parse_log_line_keys: "parse_log_line line = Some d \<Longrightarrow> map fst d = FIELDS"
proof -
  assume a: "parse_log_line line = Some d"
  then have "\<not> prefix ''#'' line" and "10 \<le> length (str_split TAB (str_strip line))"
    by (auto simp: parse_log_line_def Let_def split: if_splits)
  from parse_log_line_Some [OF this] a show ?thesis
    by (auto simp: comp_def map_nth)
qed

lemma parse_log_line_nonempty: "parse_log_line line = Some d \<Longrightarrow> d \<noteq> []"
  using parse_log_line_keys [of line d] by (auto simp: FIELDS_def)

lemma parse_log_line_has_fields: "parse_log_line line = Some d \<Longrightarrow> has_fields d"
  using parse_log_line_keys [of line d, THEN arg_cong, of set] by (simp add: has_fields_def)

lemma example_parts:
  "str_split TAB (str_strip example_line) =
     [''2024-01-05'', ''10:00:00'', ''IAD89-C1'', ''512'', ''1.2.3.4'', ''GET'',
      ''d1.cloudfront.net'', ''/'', ''200'', ''-'',
      ''Mozilla/5.0%20Chrome/120.0%20Safari/537.36'', ''-'', ''mid=3f2a-77c1'']"
  by (simp add: example_line_def str_strip_def str_split_def py_isspace_def TAB_def LF_def)

text \<open>
  C1. A line that does not start with \<open>#\<close> and whose stripped form splits on the tab
  character into at least 10 parts is parsed into a mapping whose keys are exactly the
  33 field names of the schema (in schema order, all different); the i-th field name
  maps to the i-th part when there is one and to the empty string otherwise.
\<close>

theorem parse_log_line_schema:
  assumes "\<not> prefix ''#'' line"
    and "10 \<le> length (str_split TAB (str_strip line))"
  shows "\<exists>record. parse_log_line line = Some record
           \<and> map fst record = FIELDS \<and> distinct FIELDS \<and> length FIELDS = 33
           \<and> (\<forall>i<33. map_of record (FIELDS ! i) =
                  Some (if i < length (str_split TAB (str_strip line))
                        then str_split TAB (str_strip line) ! i else ''''))"
proof -
  let ?parts = "str_split TAB (str_strip line)"
  let ?val = "\<lambda>i. if i < length ?parts then ?parts ! i else ''''"
  let ?d = "map (\<lambda>i. (FIELDS ! i, ?val i)) [0..<length FIELDS]"
  have p: "parse_log_line line = Some ?d"
    using assms by (rule parse_log_line_Some)
  have keys: "map fst ?d = FIELDS"
    by (simp add: comp_def map_nth)
  have z: "?d = zip FIELDS (map ?val [0..<length FIELDS])"
    by (rule nth_equalityI) simp_all
  have vals: "map_of ?d (FIELDS ! i) = Some (?val i)" if "i < 33" for i
  proof -
    have "map_of (zip FIELDS (map ?val [0..<length FIELDS])) (FIELDS ! i)
            = Some (map ?val [0..<length FIELDS] ! i)"
      using that by (intro map_of_zip_nth) (simp_all add: distinct_FIELDS length_FIELDS)
    then show ?thesis
      using that by (simp only: z) (simp add: length_FIELDS)
  qed
  show ?thesis
    using p keys vals distinct_FIELDS length_FIELDS by blast
qed

theorem parse_log_line_schema_witness:
  "\<not> prefix ''#'' example_line \<and> 10 \<le> length (str_split TAB (str_strip example_line))
   \<and> (\<exists>record. parse_log_line example_line = Some record \<and> map fst record = FIELDS
        \<and> map_of record ''uri_stem'' = Some ''/''
        \<and> map_of record ''range_end'' = Some '''')"
proof -
  have h1: "\<not> prefix ''#'' example_line"
    by (simp add: example_line_def)
  have h2: "10 \<le> length (str_split TAB (str_strip example_line))"
    by (simp add: example_parts)
  from parse_log_line_schema [OF h1 h2] obtain d where
    r: "parse_log_line example_line = Some d" "map fst d = FIELDS"
    and v: "\<forall>i<33. map_of d (FIELDS ! i) =
                  Some (if i < length (str_split TAB (str_strip example_line))
                        then str_split TAB (str_strip example_line) ! i else '''')"
    by blast
  from v have "map_of d (FIELDS ! 7) = Some ''/''"
    by (simp add: example_parts)
  moreover from v have "map_of d (FIELDS ! 32) = Some ''''"
    by (simp add: example_parts)
  ultimately show ?thesis
    using h1 h2 r by (auto simp: FIELDS_def)
qed

text \<open>
  C2. A line that starts with \<open>#\<close>, and a line whose stripped form splits on the tab
  character into fewer than 10 parts, gives no record. \<open>parse_log_line\<close> has no raising
  branch: its result is \<open>None\<close> or a record.
\<close>

theorem parse_log_line_rejects:
  assumes "prefix ''#'' line \<or> length (str_split TAB (str_strip line)) < 10"
  shows "parse_log_line line = None"
  using assms by (auto simp: parse_log_line_def Let_def)

theorem parse_log_line_rejects_witness:
  "prefix ''#'' ''#Version: 1.0''
   \<and> length (str_split TAB (str_strip (''GET'' @ [TAB] @ ''/'' @ [LF]))) < 10
   \<and> parse_log_line ''#Version: 1.0'' = None
   \<and> parse_log_line (''GET'' @ [TAB] @ ''/'' @ [LF]) = None"
proof -
  have h1: "prefix ''#'' ''#Version: 1.0''"
    by simp
  have h2: "length (str_split TAB (str_strip (''GET'' @ [TAB] @ ''/'' @ [LF]))) < 10"
    by (simp add: str_strip_def str_split_def py_isspace_def TAB_def LF_def)
  show ?thesis
    using h1 h2 parse_log_line_rejects [of "''#Version: 1.0''"]
      parse_log_line_rejects [of "''GET'' @ [TAB] @ ''/'' @ [LF]"]
    by blast
qed

subsection \<open>Records built from parts\<close>

lemma record_of_parts_keys: "map fst (record_of_parts parts) = FIELDS"
  by (simp add: record_of_parts_def comp_def map_nth)

lemma has_fields_record_of_parts: "has_fields (record_of_parts parts)"
  using record_of_parts_keys [of parts, THEN arg_cong, of set]
  by (simp add: has_fields_def)

lemma field_of_record_of_parts:
  assumes "i < 33"
  shows "field_of (FIELDS ! i) (record_of_parts parts) = (if i < length parts then parts ! i else '''')"
proof -
  let ?val = "\<lambda>i. if i < length parts then parts ! i else ''''"
  have z: "record_of_parts parts = zip FIELDS (map ?val [0..<length FIELDS])"
    unfolding record_of_parts_def by (rule nth_equalityI) simp_all
  have "map_of (zip FIELDS (map ?val [0..<length FIELDS])) (FIELDS ! i)
          = Some (map ?val [0..<length FIELDS] ! i)"
    using assms by (intro map_of_zip_nth) (simp_all add: distinct_FIELDS length_FIELDS)
  then show ?thesis
    using assms by (simp add: z field_of_def dict_get_def length_FIELDS)
qed

lemma fields_of_record_of_parts:
  "field_of ''date'' (record_of_parts parts) = (if 0 < length parts then parts ! 0 else '''')"
  "field_of ''edge_location'' (record_of_parts parts) = (if 2 < length parts then parts ! 2 else '''')"
  "field_of ''client_ip'' (record_of_parts parts) = (if 4 < length parts then parts ! 4 else '''')"
  "field_of ''uri_stem'' (record_of_parts parts) = (if 7 < length parts then parts ! 7 else '''')"
  "field_of ''status'' (record_of_parts parts) = (if 8 < length parts then parts ! 8 else '''')"
  "field_of ''user_agent'' (record_of_parts parts) = (if 10 < length parts then parts ! 10 else '''')"
  "field_of ''cookie'' (record_of_parts parts) = (if 12 < length parts then parts ! 12 else '''')"
  using field_of_record_of_parts [of 0 parts] field_of_record_of_parts [of 2 parts]
    field_of_record_of_parts [of 4 parts] field_of_record_of_parts [of 7 parts]
    field_of_record_of_parts [of 8 parts] field_of_record_of_parts [of 10 parts]
    field_of_record_of_parts [of 12 parts]
  by (simp_all add: FIELDS_def)

lemma example_record_fields:
  "field_of ''date'' example_record = ''2024-01-05''"
  "field_of ''edge_location'' example_record = ''IAD89-C1''"
  "field_of ''client_ip'' example_record = ''1.2.3.4''"
  "field_of ''uri_stem'' example_record = ''/''"
  "field_of ''status'' example_record = ''200''"
  "field_of ''user_agent'' example_record = ''Mozilla/5.0%20Chrome/120.0%20Safari/537.36''"
  "field_of ''cookie'' example_record = ''mid=3f2a-77c1''"
  by (simp_all add: example_record_def fields_of_record_of_parts)

lemma visit_record_fields:
  "field_of ''date'' visit_record = ''2024-01-06''"
  "field_of ''client_ip'' visit_record = ''5.6.7.8''"
  "field_of ''uri_stem'' visit_record = ''/events/ab12/visit''"
  "field_of ''user_agent'' visit_record = ''Mozilla/5.0%20Firefox/121.0''"
  "field_of ''cookie'' visit_record = ''-''"
  by (simp_all add: visit_record_def fields_of_record_of_parts)

lemma capital_mid_record_fields:
  "field_of ''client_ip'' capital_mid_record = ''1.2.3.4''"
  "field_of ''cookie'' capital_mid_record = ''mid=AB12-CD34''"
  by (simp_all add: capital_mid_record_def fields_of_record_of_parts)

lemma two_cookies_record_fields:
  "field_of ''client_ip'' two_cookies_record = ''1.2.3.4''"
  "field_of ''cookie'' two_cookies_record = ''pmid=0;%20mid=abc123-def456''"
  by (simp_all add: two_cookies_record_def fields_of_record_of_parts)

lemma example_records_ok: "example_records \<noteq> []" "list_all has_fields example_records"
  by (simp_all add: example_records_def example_record_def visit_record_def
      has_fields_record_of_parts)

lemma parse_example_line: "parse_log_line example_line = Some example_record"
proof -
  have "\<not> prefix ''#'' example_line"
    by (simp add: example_line_def)
  moreover have "10 \<le> length (str_split TAB (str_strip example_line))"
    by (simp add: example_parts)
  ultimately show ?thesis
    by (simp add: parse_log_line_Some example_parts example_record_def record_of_parts_def)
qed

subsection \<open>Lookups that cannot raise\<close>

lemma and_then_Inr [simp]: "and_then (Inr x) f = f x"
  by (simp add: and_then_def)

lemma and_then_Inl [simp]: "and_then (Inl e) f = Inl e"
  by (simp add: and_then_def)

lemma list_comp_Inr:
  "(\<And>x. x \<in> set xs \<Longrightarrow> f x = Inr (g x)) \<Longrightarrow> list_comp f xs = Inr (map g xs)"
  by (induction xs) simp_all

lemma list_comp_if_Inr:
  "(\<And>x. x \<in> set xs \<Longrightarrow> p x = Inr (q x)) \<Longrightarrow> list_comp_if p xs = Inr (filter q xs)"
  by (induction xs) simp_all

lemma getitem_field_of: "k \<in> fst ` set r \<Longrightarrow> getitem r k = Inr (field_of k r)"
  by (cases "map_of r k") (auto simp: getitem_def field_of_def dict_get_def map_of_eq_None_iff)

lemma has_fields_getitem:
  "has_fields r \<Longrightarrow> k \<in> set FIELDS \<Longrightarrow> getitem r k = Inr (field_of k r)"
  by (auto simp: has_fields_def intro: getitem_field_of)

lemma has_fields_visitor: "has_fields r \<Longrightarrow> get_visitor_id r = Inr (visitor_of r)"
proof -
  assume "has_fields r"
  then have "getitem r ''client_ip'' = Inr (field_of ''client_ip'' r)"
    by (rule has_fields_getitem) (simp add: FIELDS_def)
  then show ?thesis
    by (simp add: get_visitor_id_def visitor_of_def field_of_def Let_def split: option.splits)
qed

lemma has_fields_test:
  "has_fields r \<Longrightarrow> k \<in> set FIELDS \<Longrightarrow> field_test k p r = Inr (p (field_of k r))"
  by (simp add: field_test_def has_fields_getitem)

lemma list_all_filter: "list_all P xs \<Longrightarrow> list_all P (filter q xs)"
  by (induction xs) simp_all

lemma visitors_Inr: "list_all has_fields rs \<Longrightarrow> list_comp get_visitor_id rs = Inr (map visitor_of rs)"
  by (rule list_comp_Inr) (simp add: list_all_iff has_fields_visitor)

lemma stems_Inr:
  "list_all has_fields rs \<Longrightarrow> k \<in> set FIELDS \<Longrightarrow>
   list_comp (\<lambda>r. getitem r k) rs = Inr (map (field_of k) rs)"
  by (rule list_comp_Inr) (simp add: list_all_iff has_fields_getitem)

lemma tests_Inr:
  "list_all has_fields rs \<Longrightarrow> k \<in> set FIELDS \<Longrightarrow>
   list_comp_if (field_test k p) rs = Inr (filter (\<lambda>r. p (field_of k r)) rs)"
  by (rule list_comp_if_Inr) (simp add: list_all_iff has_fields_test)

lemma py_min_Inr: "xs \<noteq> [] \<Longrightarrow> py_min xs = Inr (fold min (tl xs) (hd xs))"
  by (cases xs) simp_all

lemma py_max_Inr: "xs \<noteq> [] \<Longrightarrow> py_max xs = Inr (fold max (tl xs) (hd xs))"
  by (cases xs) simp_all

lemma FIELDS_mem:
  "''status'' \<in> set FIELDS" "''uri_stem'' \<in> set FIELDS" "''date'' \<in> set FIELDS"
  "''edge_location'' \<in> set FIELDS" "''user_agent'' \<in> set FIELDS"
  "''client_ip'' \<in> set FIELDS" "''cookie'' \<in> set FIELDS"
  by (simp_all add: FIELDS_def)

subsection \<open>The visitor identity resolver\<close>

lemma takeWhile_run:
  "takeWhile P t = g \<longleftrightarrow>
     (\<exists>rest. t = g @ rest \<and> (\<forall>c \<in> set g. P c) \<and> (rest = [] \<or> \<not> P (hd rest)))"
proof
  assume "takeWhile P t = g"
  then have "t = g @ dropWhile P t" and "\<forall>c \<in> set g. P c"
    and "dropWhile P t = [] \<or> \<not> P (hd (dropWhile P t))"
    using takeWhile_dropWhile_id [of P t] set_takeWhileD [of _ P t] hd_dropWhile [of P t]
    by auto
  then show "\<exists>rest. t = g @ rest \<and> (\<forall>c \<in> set g. P c) \<and> (rest = [] \<or> \<not> P (hd rest))"
    by blast
next
  assume "\<exists>rest. t = g @ rest \<and> (\<forall>c \<in> set g. P c) \<and> (rest = [] \<or> \<not> P (hd rest))"
  then obtain rest where t: "t = g @ rest" and g: "\<forall>c \<in> set g. P c"
    and rest: "rest = [] \<or> \<not> P (hd rest)"
    by blast
  have "takeWhile P rest = []"
    using rest by (cases rest) auto
  then show "takeWhile P t = g"
    using g by (simp add: t takeWhile_append2)
qed

lemma mid_match_Some_iff:
  "mid_match s = Some g \<longleftrightarrow>
     (\<exists>rest. s = ''mid='' @ g @ rest \<and> g \<noteq> [] \<and> (\<forall>c \<in> set g. idchar c)
             \<and> (rest = [] \<or> \<not> idchar (hd rest)))"
proof (cases "prefix ''mid='' s")
  case False
  then show ?thesis
    by (auto simp: mid_match_def prefix_def)
next
  case True
  then obtain t where s: "s = ''mid='' @ t"
    by (auto simp: prefix_def)
  have "mid_match s = Some g \<longleftrightarrow> takeWhile idchar t = g \<and> g \<noteq> []"
    by (auto simp: mid_match_def s)
  then show ?thesis
    by (auto simp: takeWhile_run s)
qed

lemma mid_match_None_iff:
  "mid_match s = None \<longleftrightarrow> \<not> (\<exists>c rest. s = ''mid='' @ c # rest \<and> idchar c)"
proof (cases "prefix ''mid='' s")
  case False
  then show ?thesis
    by (auto simp: mid_match_def prefix_def)
next
  case True
  then obtain t where s: "s = ''mid='' @ t"
    by (auto simp: prefix_def)
  have "mid_match s = None \<longleftrightarrow> takeWhile idchar t = []"
    by (auto simp: mid_match_def s)
  also have "\<dots> \<longleftrightarrow> \<not> (\<exists>c rest. t = c # rest \<and> idchar c)"
    by (cases t) auto
  finally show ?thesis
    by (simp add: s)
qed

lemma mid_search_None_iff:
  "mid_search s = None \<longleftrightarrow> \<not> (\<exists>pre c rest. s = pre @ ''mid='' @ c # rest \<and> idchar c)"
proof (induction s)
  case Nil
  then show ?case by simp
next
  case (Cons x xs)
  have "(\<exists>pre c rest. x # xs = pre @ ''mid='' @ c # rest \<and> idchar c)
        \<longleftrightarrow> (\<exists>c rest. x # xs = ''mid='' @ c # rest \<and> idchar c)
            \<or> (\<exists>pre c rest. xs = pre @ ''mid='' @ c # rest \<and> idchar c)"
    (is "?L \<longleftrightarrow> ?A \<or> ?B")
  proof
    assume ?L
    then obtain pre c rest where e: "x # xs = pre @ ''mid='' @ c # rest" and c: "idchar c"
      by blast
    show "?A \<or> ?B"
    proof (cases pre)
      case Nil
      with e c show ?thesis by auto
    next
      case (Cons p ps)
      with e have "xs = ps @ ''mid='' @ c # rest" by simp
      with c show ?thesis by blast
    qed
  next
    assume "?A \<or> ?B"
    then show ?L
    proof
      assume ?A
      then obtain c rest where "x # xs = [] @ ''mid='' @ c # rest" and "idchar c"
        by auto
      then show ?L by blast
    next
      assume ?B
      then obtain pre c rest where "x # xs = (x # pre) @ ''mid='' @ c # rest" and "idchar c"
        by auto
      then show ?L by blast
    qed
  qed
  then have eq: "\<not> ?L \<longleftrightarrow> \<not> ?A \<and> \<not> ?B"
    by blast
  have "mid_search (x # xs) = None \<longleftrightarrow> mid_match (x # xs) = None \<and> mid_search xs = None"
    by (simp split: option.splits)
  also have "\<dots> \<longleftrightarrow> \<not> ?A \<and> \<not> ?B"
    by (simp only: Cons.IH mid_match_None_iff)
  finally show ?case
    by (simp only: eq)
qed

lemma mid_search_skip:
  "(\<forall>i < length pre. mid_match (drop i (pre @ s)) = None) \<Longrightarrow> mid_search (pre @ s) = mid_search s"
proof (induction pre)
  case Nil
  then show ?case by simp
next
  case (Cons p ps)
  from Cons.prems have 0: "mid_match (p # ps @ s) = None"
    by (metis append_Cons drop0 length_greater_0_conv list.distinct(1))
  have "\<forall>i < length ps. mid_match (drop i (ps @ s)) = None"
  proof (intro allI impI)
    fix i assume "i < length ps"
    then have "Suc i < length (p # ps)" by simp
    with Cons.prems have "mid_match (drop (Suc i) ((p # ps) @ s)) = None" by blast
    then show "mid_match (drop i (ps @ s)) = None" by simp
  qed
  then have "mid_search (ps @ s) = mid_search s"
    by (rule Cons.IH)
  then show ?case
    by (simp add: 0)
qed

lemma mid_match_search: "mid_match s = Some g \<Longrightarrow> mid_search s = Some g"
  by (cases s) (simp_all add: mid_match_def)

lemma mid_search_leftmost:
  assumes "s = pre @ ''mid='' @ g @ rest" and "g \<noteq> []" and "\<forall>c \<in> set g. idchar c"
    and "rest = [] \<or> \<not> idchar (hd rest)"
    and "\<not> (\<exists>p c q. s = p @ ''mid='' @ c # q \<and> idchar c \<and> length p < length pre)"
  shows "mid_search s = Some g"
proof -
  have "mid_match (drop i (pre @ ''mid='' @ g @ rest)) = None" if i: "i < length pre" for i
  proof (rule ccontr)
    assume "mid_match (drop i (pre @ ''mid='' @ g @ rest)) \<noteq> None"
    then obtain c q where d: "drop i s = ''mid='' @ c # q" and c: "idchar c"
      using mid_match_None_iff [of "drop i s"] assms(1) by auto
    have "s = take i s @ ''mid='' @ c # q"
      using append_take_drop_id [of i s] d by simp
    moreover have "length (take i s) < length pre"
      using i assms(1) by simp
    ultimately show False
      using assms(5) c by blast
  qed
  then have "mid_search (pre @ ''mid='' @ g @ rest) = mid_search (''mid='' @ g @ rest)"
    by (intro mid_search_skip) blast
  moreover have "mid_match (''mid='' @ g @ rest) = Some g"
    unfolding mid_match_Some_iff using assms(2-4) by blast
  ultimately show ?thesis
    by (simp only: assms(1) mid_match_search)
qed

lemma example_visitor: "visitor_of example_record = ''3f2a-77c1''"
  by (simp add: visitor_of_def example_record_fields mid_match_def idchar_def)

text \<open>
  C3, as the code has it. For a record that has every field: when the cookie holds no
  \<open>mid=\<close> followed by a character of \<open>[a-f0-9-]\<close> (digits, the small letters a to f,
  the dash), the result is the client address; when it does, the result is the longest
  run of such characters after the leftmost such \<open>mid=\<close>. So a cookie that is
  \<open>mid=abc123-def456\<close> gives \<open>abc123-def456\<close> whatever the client address, and the
  result depends on the cookie and the client address only.
\<close>

theorem get_visitor_id_resolves:
  assumes "has_fields r"
  shows "(\<not> (\<exists>pre c rest. field_of ''cookie'' r = pre @ ''mid='' @ c # rest \<and> idchar c) \<longrightarrow>
            get_visitor_id r = Inr (field_of ''client_ip'' r))
       \<and> (\<forall>pre g rest.
            field_of ''cookie'' r = pre @ ''mid='' @ g @ rest \<and> g \<noteq> [] \<and> (\<forall>c \<in> set g. idchar c)
            \<and> (rest = [] \<or> \<not> idchar (hd rest))
            \<and> \<not> (\<exists>p c q. field_of ''cookie'' r = p @ ''mid='' @ c # q \<and> idchar c
                          \<and> length p < length pre) \<longrightarrow>
            get_visitor_id r = Inr g)
       \<and> (field_of ''cookie'' r = ''mid=abc123-def456'' \<longrightarrow>
            get_visitor_id r = Inr ''abc123-def456'')
       \<and> (\<forall>r'. has_fields r' \<and> field_of ''cookie'' r' = field_of ''cookie'' r
                \<and> field_of ''client_ip'' r' = field_of ''client_ip'' r \<longrightarrow>
              get_visitor_id r' = get_visitor_id r)"
proof (intro conjI allI impI)
  assume "\<not> (\<exists>pre c rest. field_of ''cookie'' r = pre @ ''mid='' @ c # rest \<and> idchar c)"
  then have "mid_search (field_of ''cookie'' r) = None"
    by (simp add: mid_search_None_iff)
  then show "get_visitor_id r = Inr (field_of ''client_ip'' r)"
    by (simp add: has_fields_visitor [OF assms] visitor_of_def)
next
  fix pre g rest
  assume a: "field_of ''cookie'' r = pre @ ''mid='' @ g @ rest \<and> g \<noteq> [] \<and> (\<forall>c \<in> set g. idchar c)
            \<and> (rest = [] \<or> \<not> idchar (hd rest))
            \<and> \<not> (\<exists>p c q. field_of ''cookie'' r = p @ ''mid='' @ c # q \<and> idchar c
                          \<and> length p < length pre)"
  then have "mid_search (field_of ''cookie'' r) = Some g"
    by (intro mid_search_leftmost [of _ pre g rest]) blast+
  then show "get_visitor_id r = Inr g"
    by (simp add: has_fields_visitor [OF assms] visitor_of_def)
next
  assume "field_of ''cookie'' r = ''mid=abc123-def456''"
  then show "get_visitor_id r = Inr ''abc123-def456''"
    by (simp add: has_fields_visitor [OF assms] visitor_of_def mid_match_def idchar_def)
next
  fix r'
  assume "has_fields r' \<and> field_of ''cookie'' r' = field_of ''cookie'' r
            \<and> field_of ''client_ip'' r' = field_of ''client_ip'' r"
  then have h: "has_fields r'" and c: "field_of ''cookie'' r' = field_of ''cookie'' r"
    and ip: "field_of ''client_ip'' r' = field_of ''client_ip'' r"
    by simp_all
  show "get_visitor_id r' = get_visitor_id r"
    by (simp add: has_fields_visitor [OF h] has_fields_visitor [OF assms] visitor_of_def c ip
        split: option.splits)
qed

theorem get_visitor_id_resolves_witness:
  "has_fields example_record
   \<and> field_of ''cookie'' example_record = ''mid=3f2a-77c1''
   \<and> get_visitor_id example_record = Inr ''3f2a-77c1''
   \<and> has_fields visit_record
   \<and> field_of ''cookie'' visit_record = ''-''
   \<and> get_visitor_id visit_record = Inr ''5.6.7.8''
   \<and> has_fields abc_mid_record
   \<and> field_of ''cookie'' abc_mid_record = ''mid=abc123-def456''
   \<and> field_of ''client_ip'' abc_mid_record = ''9.9.9.9''
   \<and> get_visitor_id abc_mid_record = Inr ''abc123-def456''"
proof -
  have 1: "has_fields example_record" and 2: "has_fields visit_record"
    and 3: "has_fields abc_mid_record"
    by (simp_all add: example_record_def visit_record_def abc_mid_record_def
        has_fields_record_of_parts)
  have "field_of ''cookie'' example_record = [] @ ''mid='' @ ''3f2a-77c1'' @ []
          \<and> ''3f2a-77c1'' \<noteq> [] \<and> (\<forall>c \<in> set ''3f2a-77c1''. idchar c)
          \<and> ([] = [] \<or> \<not> idchar (hd []))
          \<and> \<not> (\<exists>p c q. field_of ''cookie'' example_record = p @ ''mid='' @ c # q \<and> idchar c
                        \<and> length p < length ([] :: string))"
    by (simp add: example_record_fields idchar_def)
  with get_visitor_id_resolves [OF 1] have a: "get_visitor_id example_record = Inr ''3f2a-77c1''"
    by blast
  have "\<not> (\<exists>pre c rest. field_of ''cookie'' visit_record = pre @ ''mid='' @ c # rest \<and> idchar c)"
    by (simp add: visit_record_fields append_eq_Cons_conv)
  with get_visitor_id_resolves [OF 2]
  have b: "get_visitor_id visit_record = Inr (field_of ''client_ip'' visit_record)"
    by blast
  have abc: "field_of ''cookie'' abc_mid_record = ''mid=abc123-def456''"
    "field_of ''client_ip'' abc_mid_record = ''9.9.9.9''"
    by (simp_all add: abc_mid_record_def fields_of_record_of_parts)
  with get_visitor_id_resolves [OF 3] have c: "get_visitor_id abc_mid_record = Inr ''abc123-def456''"
    by blast
  show ?thesis
    using 1 2 3 a b c abc by (simp add: example_record_fields visit_record_fields)
qed

text \<open>
  C3 as stated fails twice. Capital hexadecimal digits are not matched: the cookie
  \<open>mid=AB12-CD34\<close> gives the client address. And a cookie that contains
  \<open>mid=abc123-def456\<close> need not give \<open>abc123-def456\<close>: the pattern is searched from
  the left without a word boundary, so \<open>pmid=0\<close> before it gives \<open>0\<close>.
\<close>

theorem get_visitor_id_counterexample:
  "has_fields capital_mid_record
   \<and> field_of ''cookie'' capital_mid_record = ''mid=AB12-CD34''
   \<and> field_of ''client_ip'' capital_mid_record = ''1.2.3.4''
   \<and> get_visitor_id capital_mid_record = Inr ''1.2.3.4''
   \<and> has_fields two_cookies_record
   \<and> sublist ''mid=abc123-def456'' (field_of ''cookie'' two_cookies_record)
   \<and> get_visitor_id two_cookies_record = Inr ''0''"
proof -
  have 1: "has_fields capital_mid_record" and 2: "has_fields two_cookies_record"
    by (simp_all add: capital_mid_record_def two_cookies_record_def has_fields_record_of_parts)
  have "visitor_of capital_mid_record = ''1.2.3.4''"
    by (simp add: visitor_of_def capital_mid_record_fields mid_match_def idchar_def)
  moreover have "visitor_of two_cookies_record = ''0''"
    by (simp add: visitor_of_def two_cookies_record_fields mid_match_def idchar_def)
  moreover have "sublist ''mid=abc123-def456'' (field_of ''cookie'' two_cookies_record)"
    by (simp add: two_cookies_record_fields sublist_code)
  ultimately show ?thesis
    using 1 2 by (simp add: has_fields_visitor capital_mid_record_fields)
qed

subsection \<open>The log loader\<close>

lemma read_lines_filter:
  "read_lines cutoff_date records lines =
     records @ filter (\<lambda>r. case cutoff_date of None \<Rightarrow> True | Some c \<Rightarrow> c \<le> field_of ''date'' r)
                 (List.map_filter parse_log_line lines)"
proof (induction lines arbitrary: records)
  case Nil
  then show ?case by (simp add: List.map_filter_simps)
next
  case (Cons line lines)
  show ?case
  proof (cases "parse_log_line line")
    case None
    then show ?thesis by (simp add: Cons.IH List.map_filter_simps)
  next
    case (Some d)
    have ne: "d \<noteq> []" using Some by (rule parse_log_line_nonempty)
    have date: "getitem d ''date'' = Inr (field_of ''date'' d)"
      using parse_log_line_has_fields [OF Some] by (rule has_fields_getitem) (simp add: FIELDS_def)
    show ?thesis
    proof (cases cutoff_date)
      case None
      then show ?thesis
        using Cons.IH by (simp add: Some ne List.map_filter_simps)
    next
      case c: (Some c)
      then show ?thesis
        using Cons.IH by (auto simp: Some ne date List.map_filter_simps not_less)
    qed
  qed
qed

lemma load_files_filter:
  "foldl (read_lines cutoff_date) records files =
     records @ filter (\<lambda>r. case cutoff_date of None \<Rightarrow> True | Some c \<Rightarrow> c \<le> field_of ''date'' r)
                 (concat (map (List.map_filter parse_log_line) files))"
  by (induction files arbitrary: records) (simp_all add: read_lines_filter)

text \<open>
  C8, as the code has it. For a window \<open>n\<close> other than 0 the cutoff is the date string
  of today minus \<open>n\<close> days, and the result is the accepted records, in order, whose
  date is not below the cutoff (or the error of the date arithmetic). Without a window,
  and for the window 0, every accepted record is in the result.
\<close>

theorem load_logs_cutoff:
  "(n \<noteq> 0 \<longrightarrow>
      load_logs today_minus files (Some n) =
        (case today_minus n of
           Inl e \<Rightarrow> Inl e
         | Inr cutoff \<Rightarrow>
             Inr (filter (\<lambda>r. cutoff \<le> field_of ''date'' r)
                    (concat (map (List.map_filter parse_log_line) files)))))
   \<and> load_logs today_minus files (Some 0) =
       Inr (concat (map (List.map_filter parse_log_line) files))
   \<and> load_logs today_minus files None =
       Inr (concat (map (List.map_filter parse_log_line) files))"
  by (simp add: load_logs_def load_files_filter split: sum.splits)

theorem load_logs_cutoff_witness:
  "(30 :: int) \<noteq> 0
   \<and> today_minus_20240615 30 = Inr ''2024-05-16''
   \<and> parse_log_line example_line = Some example_record
   \<and> load_logs today_minus_20240615 [[example_line]] (Some 30) = Inr []
   \<and> load_logs today_minus_20240615 [[example_line]] None = Inr [example_record]"
  using load_logs_cutoff [of 30 today_minus_20240615 "[[example_line]]"]
  by (simp add: today_minus_20240615_def parse_example_line example_record_fields
      List.map_filter_simps)

text \<open>
  C8 as stated fails for the window 0: on 2024-06-15 the cutoff of the claim is
  2024-06-15, the record of 2024-01-05 precedes it and is loaded all the same.
\<close>

theorem load_logs_zero_window_counterexample:
  "today_minus_20240615 0 = Inr ''2024-06-15''
   \<and> parse_log_line example_line = Some example_record
   \<and> field_of ''date'' example_record < ''2024-06-15''
   \<and> load_logs today_minus_20240615 [[example_line]] (Some 0) = Inr [example_record]"
  by (simp add: today_minus_20240615_def parse_example_line example_record_fields
      load_logs_def parse_log_line_nonempty [OF parse_example_line])

subsection \<open>The aggregator\<close>

lemma daily_loop_fold:
  "list_all has_fields rs \<Longrightarrow> daily_loop dt rs = Inr (foldl daily_step dt rs)"
proof (induction rs arbitrary: dt)
  case Nil
  then show ?case by simp
next
  case (Cons r rs)
  then have r: "has_fields r" and rs: "list_all has_fields rs" by simp_all
  have d: "getitem r ''date'' = Inr (field_of ''date'' r)"
    using r by (rule has_fields_getitem) (simp add: FIELDS_def)
  show ?case
    by (simp add: d has_fields_visitor [OF r] Cons.IH [OF rs] daily_step_def)
qed

lemma count_loop_fold:
  "list_all has_fields rs \<Longrightarrow> key \<in> set FIELDS \<Longrightarrow>
   count_loop key counts rs = Inr (foldl (\<lambda>counts k. dd_modify 0 Suc k counts) counts (map (field_of key) rs))"
  by (induction rs arbitrary: counts) (simp_all add: has_fields_getitem)

lemma browser_loop_fold:
  "list_all has_fields rs \<Longrightarrow>
   browser_loop counts rs =
     Inr (foldl (\<lambda>counts k. dd_modify 0 Suc k counts) counts (map (\<lambda>r. browser_of (field_of ''user_agent'' r)) rs))"
proof (induction rs arbitrary: counts)
  case Nil
  then show ?case by simp
next
  case (Cons r rs)
  then have r: "has_fields r" and rs: "list_all has_fields rs" by simp_all
  have d: "getitem r ''user_agent'' = Inr (field_of ''user_agent'' r)"
    using r by (rule has_fields_getitem) (simp add: FIELDS_def)
  show ?case
    by (simp add: d Cons.IH [OF rs])
qed

lemma analyze_logs_Metrics:
  assumes ne: "records \<noteq> []" and hf: "list_all has_fields records"
  shows "analyze_logs records =
    Inr (Metrics
      \<lparr> summary =
          \<lparr> total_requests = length records,
            unique_visitors = card (set (map visitor_of records)),
            successful_requests =
              length (filter (\<lambda>r. prefix ''2'' (field_of ''status'' r)
                                  \<or> prefix ''3'' (field_of ''status'' r)) records),
            date_range =
              \<lparr> start_date = fold min (tl (map (field_of ''date'') records))
                               (hd (map (field_of ''date'') records)),
                end_date = fold max (tl (map (field_of ''date'') records))
                             (hd (map (field_of ''date'') records)) \<rparr> \<rparr>,
        page_views =
          \<lparr> homepage =
              \<lparr> total_count =
                  length (filter (\<lambda>r. field_of ''uri_stem'' r = ''/''
                                      \<or> field_of ''uri_stem'' r = ''/index.html'') records),
                unique_count =
                  card (set (map visitor_of
                    (filter (\<lambda>r. field_of ''uri_stem'' r = ''/''
                                 \<or> field_of ''uri_stem'' r = ''/index.html'') records))) \<rparr>,
            event_details =
              \<lparr> total_count =
                  length (filter (\<lambda>r. event_pattern_match (field_of ''uri_stem'' r)) records),
                unique_count =
                  card (set (map visitor_of
                    (filter (\<lambda>r. event_pattern_match (field_of ''uri_stem'' r)) records))) \<rparr>,
            unique_events_viewed =
              card (set (map (field_of ''uri_stem'')
                (filter (\<lambda>r. event_pattern_match (field_of ''uri_stem'' r)) records))) \<rparr>,
        api_usage =
          \<lparr> total_api_calls =
              length (filter (\<lambda>r. prefix ''/api/'' (field_of ''uri_stem'' r)) records),
            calendar_requests =
              length (filter (\<lambda>r. field_of ''uri_stem'' r = ''/api/events'')
                (filter (\<lambda>r. prefix ''/api/'' (field_of ''uri_stem'' r)) records)),
            location_searches =
              length (filter (\<lambda>r. prefix ''/api/events/geocode'' (field_of ''uri_stem'' r))
                (filter (\<lambda>r. prefix ''/api/'' (field_of ''uri_stem'' r)) records)) \<rparr>,
        external_clicks =
          \<lparr> visit_store_clicks =
              \<lparr> total_count =
                  length (filter (\<lambda>r. visit_pattern_search (field_of ''uri_stem'' r)) records),
                unique_count =
                  card (set (map visitor_of
                    (filter (\<lambda>r. visit_pattern_search (field_of ''uri_stem'' r)) records))) \<rparr>,
            note_text =
              (if filter (\<lambda>r. visit_pattern_search (field_of ''uri_stem'' r)) records = []
               then Some ''Requires /visit tracking endpoint'' else None) \<rparr>,
        daily_stats =
          dict_of_items
            (map (\<lambda>(date, data). (date, \<lparr> requests = fst data,
                                           day_unique_visitors = card (snd data) \<rparr>))
               (sort_key fst (foldl daily_step [] records))),
        top_pages = take 15 (sorted_by_count_desc (counts_of (map (field_of ''uri_stem'') records))),
        top_edge_locations =
          take 10 (sorted_by_count_desc (counts_of (map (field_of ''edge_location'') records))),
        browsers =
          dict_of_items (sorted_by_count_desc
            (counts_of (map (\<lambda>r. browser_of (field_of ''user_agent'' r)) records)))
      \<rparr>)"
  using ne hf
  by (simp add: analyze_logs_def visitors_Inr tests_Inr stems_Inr list_all_filter FIELDS_mem
      daily_loop_fold count_loop_fold browser_loop_fold py_min_Inr py_max_Inr counts_of_def)

text \<open>
  C6. On the empty record sequence \<open>analyze_logs\<close> returns normally, with the error
  marker \<open>{'error': 'No log records found'}\<close> and no metrics.
\<close>

theorem analyze_logs_empty:
  "analyze_logs [] = Inr (ErrorReport ''No log records found'')"
  by (simp add: analyze_logs_def)

text \<open>
  C10. On a non-empty sequence of records that have every field, \<open>analyze_logs\<close> returns
  the metrics, and every unique-visitor count is at most its total: in the summary, for
  the homepage, for the event details and for the store clicks.
\<close>

theorem unique_counts_bounded:
  assumes "records \<noteq> []" and "list_all has_fields records"
  shows "\<exists>m. analyze_logs records = Inr (Metrics m)
           \<and> unique_visitors (summary m) \<le> total_requests (summary m)
           \<and> unique_count (homepage (page_views m)) \<le> total_count (homepage (page_views m))
           \<and> unique_count (event_details (page_views m))
                 \<le> total_count (event_details (page_views m))
           \<and> unique_count (visit_store_clicks (external_clicks m))
                 \<le> total_count (visit_store_clicks (external_clicks m))"
proof -
  have le: "card (f ` set xs) \<le> length xs" for f :: "pydict \<Rightarrow> string" and xs
    using card_length [of "map f xs"] by simp
  have le_filter: "card (f ` {x \<in> set xs. P x}) \<le> length (filter P xs)"
    for f :: "pydict \<Rightarrow> string" and xs P
    using le [of f "filter P xs"] by simp
  show ?thesis
    by (simp add: analyze_logs_Metrics [OF assms] le le_filter)
qed

theorem unique_counts_bounded_witness:
  "example_records \<noteq> [] \<and> list_all has_fields example_records
   \<and> (\<exists>m. analyze_logs example_records = Inr (Metrics m)
         \<and> unique_visitors (summary m) \<le> total_requests (summary m)
         \<and> unique_count (homepage (page_views m)) \<le> total_count (homepage (page_views m))
         \<and> unique_count (event_details (page_views m))
               \<le> total_count (event_details (page_views m))
         \<and> unique_count (visit_store_clicks (external_clicks m))
               \<le> total_count (visit_store_clicks (external_clicks m)))"
  using unique_counts_bounded [OF example_records_ok] example_records_ok by blast

subsection \<open>Top pages\<close>

lemma analyze_logs_top_pages:
  assumes "records \<noteq> []" and "list_all has_fields records"
  shows "\<exists>m. analyze_logs records = Inr (Metrics m)
           \<and> top_pages m = take 15 (sort_key (\<lambda>x. - int (snd x))
                                    (counts_of (map (field_of ''uri_stem'') records)))"
  by (simp add: analyze_logs_Metrics [OF assms] sorted_by_count_desc_def)

text \<open>
  C5. On a non-empty sequence of records that have every field, the top-pages list has
  at most 15 entries, its counts never increase along the list, and of two entries with
  the same count the one whose path occurs first in the record sequence comes first.
  Each count is the number of records with that path.
\<close>

theorem top_pages_order:
  assumes "records \<noteq> []" and "list_all has_fields records"
  shows "\<exists>m. analyze_logs records = Inr (Metrics m)
           \<and> length (top_pages m) \<le> 15
           \<and> (\<forall>i j. i < j \<and> j < length (top_pages m) \<longrightarrow>
                  snd (top_pages m ! j) \<le> snd (top_pages m ! i))
           \<and> (\<forall>i j. i < j \<and> j < length (top_pages m)
                    \<and> snd (top_pages m ! i) = snd (top_pages m ! j) \<longrightarrow>
                  length (takeWhile (\<lambda>q. q \<noteq> fst (top_pages m ! i))
                            (map (field_of ''uri_stem'') records))
                  < length (takeWhile (\<lambda>q. q \<noteq> fst (top_pages m ! j))
                              (map (field_of ''uri_stem'') records)))
           \<and> (\<forall>i < length (top_pages m).
                  snd (top_pages m ! i)
                    = count_list (map (field_of ''uri_stem'') records) (fst (top_pages m ! i)))"
proof -
  let ?ks = "map (field_of ''uri_stem'') records"
  let ?f = "\<lambda>x :: string \<times> nat. - int (snd x)"
  let ?S = "sort_key ?f (counts_of ?ks)"
  let ?tp = "take 15 ?S"
  let ?first = "\<lambda>p. length (takeWhile (\<lambda>q. q \<noteq> p) ?ks)"
  let ?R = "\<lambda>a b :: string \<times> nat. ?first (fst a) < ?first (fst b)"
  have nth_tp: "?tp ! i = ?S ! i" and in_S: "i < length ?S" if "i < length ?tp" for i
    using that by simp_all
  have desc: "snd (?tp ! j) \<le> snd (?tp ! i)" if "i < j" "j < length ?tp" for i j
  proof -
    have "sorted (map ?f ?S)" by (rule sorted_sort_key)
    moreover have "i < length (map ?f ?S)" "j < length (map ?f ?S)" "i \<le> j"
      using that by simp_all
    ultimately have "map ?f ?S ! i \<le> map ?f ?S ! j"
      using sorted_nth_mono by blast
    then have "snd (?S ! j) \<le> snd (?S ! i)"
      using that by simp
    then show ?thesis
      using that by (simp add: nth_tp)
  qed
  have ties: "?first (fst (?tp ! i)) < ?first (fst (?tp ! j))"
    if "i < j" "j < length ?tp" "snd (?tp ! i) = snd (?tp ! j)" for i j
  proof -
    let ?P = "\<lambda>y. ?f y = ?f (?S ! i)"
    have "sorted_wrt ?R (counts_of ?ks)"
      using counts_of_first_order [of ?ks] by (simp add: sorted_wrt_map)
    then have "sorted_wrt ?R (filter ?P (counts_of ?ks))"
      by (rule sorted_wrt_filter)
    then have st: "sorted_wrt ?R (filter ?P ?S)"
      by (simp only: sort_key_stable)
    have Pj: "?P (?S ! j)"
      using that nth_tp [of i] nth_tp [of j] by simp
    have "?R (?S ! i) (?S ! j)"
      using st that(1) in_S [OF that(2)] _ Pj by (rule filter_sorted_wrt_nth) simp
    then show ?thesis
      using that by (simp add: nth_tp)
  qed
  have cnt: "snd (?tp ! i) = count_list ?ks (fst (?tp ! i))" if "i < length ?tp" for i
  proof -
    have "?tp ! i \<in> set ?tp"
      using that by (rule nth_mem)
    then have "?tp ! i \<in> set (counts_of ?ks)"
      using set_take_subset [of 15 ?S] by auto
    then have "map_of (counts_of ?ks) (fst (?tp ! i)) = Some (snd (?tp ! i))"
      using counts_of_distinct [of ?ks] by simp
    then show ?thesis
      by (simp add: counts_of_map_of split: if_splits)
  qed
  from analyze_logs_top_pages [OF assms] obtain m
    where m: "analyze_logs records = Inr (Metrics m)" and tp: "top_pages m = ?tp"
    by blast
  have "length (top_pages m) \<le> 15"
    unfolding tp by simp
  moreover have "\<forall>i j. i < j \<and> j < length (top_pages m) \<longrightarrow>
                  snd (top_pages m ! j) \<le> snd (top_pages m ! i)"
    unfolding tp using desc by blast
  moreover have "\<forall>i j. i < j \<and> j < length (top_pages m)
                    \<and> snd (top_pages m ! i) = snd (top_pages m ! j) \<longrightarrow>
                  ?first (fst (top_pages m ! i)) < ?first (fst (top_pages m ! j))"
    unfolding tp using ties by blast
  moreover have "\<forall>i < length (top_pages m).
                  snd (top_pages m ! i) = count_list ?ks (fst (top_pages m ! i))"
    unfolding tp using cnt by blast
  ultimately show ?thesis
    using m by blast
qed

theorem top_pages_order_witness:
  "example_records \<noteq> [] \<and> list_all has_fields example_records
   \<and> (\<exists>m. analyze_logs example_records = Inr (Metrics m) \<and> length (top_pages m) \<le> 15)"
  using top_pages_order [OF example_records_ok] example_records_ok by blast

subsection \<open>Daily traffic\<close>

lemma daily_step_keys:
  "map fst (daily_step dt r) =
     (if field_of ''date'' r \<in> fst ` set dt then map fst dt else map fst dt @ [field_of ''date'' r])"
  by (simp add: daily_step_def dd_modify_keys dd_modify_keys_set)

lemma daily_step_sum:
  "sum_list (map (\<lambda>kv. fst (snd kv)) (daily_step dt r)) = sum_list (map (\<lambda>kv. fst (snd kv)) dt) + 1"
proof -
  let ?d = "field_of ''date'' r"
  let ?dt1 = "dd_modify (0, {}) (\<lambda>(n, vs). (n + 1, vs)) ?d dt"
  have 1: "sum_list (map (\<lambda>kv. fst (snd kv)) ?dt1) = sum_list (map (\<lambda>kv. fst (snd kv)) dt) + 1"
    by (rule dd_modify_sum) (simp_all add: case_prod_unfold)
  have 2: "sum_list (map (\<lambda>kv. fst (snd kv))
             (dd_modify (0, {}) (\<lambda>(n, vs). (n, insert (visitor_of r) vs)) ?d ?dt1))
           = sum_list (map (\<lambda>kv. fst (snd kv)) ?dt1) + 0"
    by (rule dd_modify_sum) (simp_all add: case_prod_unfold)
  show ?thesis
    using 1 2 by (simp add: daily_step_def)
qed

lemma daily_traffic_keys:
  "distinct (map fst (foldl daily_step [] rs))
   \<and> fst ` set (foldl daily_step [] rs) = field_of ''date'' ` set rs"
proof (induction rs rule: rev_induct)
  case Nil
  then show ?case by simp
next
  case (snoc r rs)
  let ?dt = "foldl daily_step [] rs"
  have "set (map fst (daily_step ?dt r)) = insert (field_of ''date'' r) (fst ` set ?dt)"
    unfolding daily_step_keys by auto
  then have "fst ` set (daily_step ?dt r) = insert (field_of ''date'' r) (fst ` set ?dt)"
    by simp
  moreover have "distinct (map fst (daily_step ?dt r))"
    unfolding daily_step_keys using snoc.IH by simp
  ultimately show ?case
    using snoc.IH by simp
qed

lemma daily_traffic_sum:
  "sum_list (map (\<lambda>kv. fst (snd kv)) (foldl daily_step [] rs)) = length rs"
  by (induction rs rule: rev_induct) (simp_all add: daily_step_sum)

lemma analyze_logs_daily_stats:
  assumes "records \<noteq> []" and "list_all has_fields records"
  shows "\<exists>m. analyze_logs records = Inr (Metrics m)
           \<and> total_requests (summary m) = length records
           \<and> daily_stats m =
               map (\<lambda>(date, data). (date, \<lparr> requests = fst data,
                                              day_unique_visitors = card (snd data) \<rparr>))
                 (sort_key fst (foldl daily_step [] records))"
proof -
  let ?g = "\<lambda>(date :: string, data :: nat \<times> string set).
              (date, \<lparr> requests = fst data, day_unique_visitors = card (snd data) \<rparr>)"
  let ?S = "sort_key fst (foldl daily_step [] records)"
  have k: "map fst (map ?g ?S) = map fst ?S"
    by (simp add: comp_def case_prod_unfold)
  have dist: "distinct (map fst ?S)"
    using daily_traffic_keys [of records] by (simp add: distinct_map_sort_key)
  have "distinct (map fst (map ?g ?S))"
    by (simp only: k dist)
  then have "dict_of_items (map ?g ?S) = map ?g ?S"
    by (rule dict_of_items_distinct)
  then show ?thesis
    by (simp add: analyze_logs_Metrics [OF assms])
qed

text \<open>
  C9. On a non-empty sequence of records that have every field, the keys of
  \<open>daily_stats\<close> are the date values of the records, each once, in ascending order, and
  the request counts of the entries add up to \<open>total_requests\<close>.
\<close>

theorem daily_stats_dates:
  assumes "records \<noteq> []" and "list_all has_fields records"
  shows "\<exists>m. analyze_logs records = Inr (Metrics m)
           \<and> sorted (map fst (daily_stats m))
           \<and> distinct (map fst (daily_stats m))
           \<and> set (map fst (daily_stats m)) = set (map (field_of ''date'') records)
           \<and> sum_list (map (\<lambda>kv. requests (snd kv)) (daily_stats m)) = total_requests (summary m)"
proof -
  let ?g = "\<lambda>(date :: string, data :: nat \<times> string set).
              (date, \<lparr> requests = fst data, day_unique_visitors = card (snd data) \<rparr>)"
  let ?S = "sort_key fst (foldl daily_step [] records)"
  from analyze_logs_daily_stats [OF assms] obtain m
    where m: "analyze_logs records = Inr (Metrics m)"
      and t: "total_requests (summary m) = length records"
      and d: "daily_stats m = map ?g ?S"
    by blast
  have keys: "map fst (daily_stats m) = map fst ?S"
    unfolding d by (simp add: comp_def case_prod_unfold)
  have "sorted (map fst (daily_stats m))"
    unfolding keys by (rule sorted_sort_key)
  moreover have "distinct (map fst (daily_stats m))"
    unfolding keys using daily_traffic_keys [of records] by (simp add: distinct_map_sort_key)
  moreover have "set (map fst (daily_stats m)) = set (map (field_of ''date'') records)"
    unfolding keys using daily_traffic_keys [of records] by simp
  moreover have "sum_list (map (\<lambda>kv. requests (snd kv)) (daily_stats m)) = total_requests (summary m)"
  proof -
    have "map (\<lambda>kv. requests (snd kv)) (daily_stats m) = map (\<lambda>kv. fst (snd kv)) ?S"
      unfolding d by (simp add: comp_def case_prod_unfold)
    then show ?thesis
      by (simp add: t sum_list_sort_key daily_traffic_sum)
  qed
  ultimately show ?thesis
    using m by blast
qed

theorem daily_stats_dates_witness:
  "example_records \<noteq> [] \<and> list_all has_fields example_records
   \<and> (\<exists>m. analyze_logs example_records = Inr (Metrics m)
         \<and> sorted (map fst (daily_stats m))
         \<and> set (map fst (daily_stats m)) = {''2024-01-05'', ''2024-01-06''}
         \<and> sum_list (map (\<lambda>kv. requests (snd kv)) (daily_stats m)) = total_requests (summary m))"
proof -
  from daily_stats_dates [OF example_records_ok] obtain m
    where "analyze_logs example_records = Inr (Metrics m)"
      and "sorted (map fst (daily_stats m))"
      and "set (map fst (daily_stats m)) = set (map (field_of ''date'') example_records)"
      and "sum_list (map (\<lambda>kv. requests (snd kv)) (daily_stats m)) = total_requests (summary m)"
    by blast
  then show ?thesis
    using example_records_ok
    by (auto simp: example_records_def example_record_fields visit_record_fields)
qed

subsection \<open>External clicks\<close>

lemma visit_pattern_search_no_LF:
  "LF \<notin> set s \<Longrightarrow> visit_pattern_search s = (suffix ''/visit'' s \<or> suffix ''/register'' s)"
  by (auto simp: visit_pattern_search_def suffix_def)

lemma example_browser: "browser_of ''Mozilla/5.0%20Chrome/120.0%20Safari/537.36'' = ''Chrome''"
  by (simp add: browser_of_def sublist_code)

text \<open>
  C7, as the code has it. On a non-empty sequence of records that have every field, the
  external-clicks section always holds the two counts: the number of records whose path
  matches \<open>/(visit|register)$\<close> and the number of distinct visitors among them (both 0
  when no record matches). Beside them it holds the note, which is the explanatory text
  exactly when no record matches and \<open>None\<close> otherwise. For paths without a line feed,
  matching is ending with \<open>/visit\<close> or \<open>/register\<close>.
\<close>

theorem external_clicks_note:
  assumes "records \<noteq> []" and "list_all has_fields records"
  shows "\<exists>m. analyze_logs records = Inr (Metrics m)
           \<and> total_count (visit_store_clicks (external_clicks m))
               = length (filter (\<lambda>r. visit_pattern_search (field_of ''uri_stem'' r)) records)
           \<and> unique_count (visit_store_clicks (external_clicks m))
               = card (visitor_of ` {r \<in> set records. visit_pattern_search (field_of ''uri_stem'' r)})
           \<and> note_text (external_clicks m)
               = (if \<exists>r \<in> set records. visit_pattern_search (field_of ''uri_stem'' r)
                  then None else Some ''Requires /visit tracking endpoint'')
           \<and> ((\<forall>r \<in> set records. LF \<notin> set (field_of ''uri_stem'' r)) \<longrightarrow>
                note_text (external_clicks m)
                  = (if \<exists>r \<in> set records. suffix ''/visit'' (field_of ''uri_stem'' r)
                                           \<or> suffix ''/register'' (field_of ''uri_stem'' r)
                     then None else Some ''Requires /visit tracking endpoint''))"
proof -
  have e: "(filter P records = []) = (\<not> (\<exists>r \<in> set records. P r))" for P :: "pydict \<Rightarrow> bool"
    by (simp add: filter_empty_conv)
  show ?thesis
    by (auto simp: analyze_logs_Metrics [OF assms] e visit_pattern_search_no_LF)
qed

theorem external_clicks_note_witness:
  "example_records \<noteq> [] \<and> list_all has_fields example_records
   \<and> (\<exists>m. analyze_logs example_records = Inr (Metrics m)
         \<and> total_count (visit_store_clicks (external_clicks m)) = 1
         \<and> note_text (external_clicks m) = None)"
proof -
  have v: "visit_pattern_search (field_of ''uri_stem'' visit_record)"
    "\<not> visit_pattern_search (field_of ''uri_stem'' example_record)"
    by (simp_all add: visit_record_fields example_record_fields visit_pattern_search_def
        suffix_to_prefix LF_def)
  from external_clicks_note [OF example_records_ok] obtain m
    where "analyze_logs example_records = Inr (Metrics m)"
      and "total_count (visit_store_clicks (external_clicks m))
             = length (filter (\<lambda>r. visit_pattern_search (field_of ''uri_stem'' r)) example_records)"
      and "note_text (external_clicks m)
             = (if \<exists>r \<in> set example_records. visit_pattern_search (field_of ''uri_stem'' r)
                then None else Some ''Requires /visit tracking endpoint'')"
    by blast
  then show ?thesis
    using example_records_ok v by (auto simp: example_records_def)
qed

text \<open>
  C7 as stated fails: for one record with the path \<open>/\<close> the section holds the note and,
  beside it, the counts 0 and 0. The whole report on this input:
\<close>

theorem external_clicks_counts_counterexample:
  "analyze_logs [example_record] =
     Inr (Metrics
       \<lparr> summary =
           \<lparr> total_requests = 1, unique_visitors = 1, successful_requests = 1,
             date_range = \<lparr> start_date = ''2024-01-05'', end_date = ''2024-01-05'' \<rparr> \<rparr>,
         page_views =
           \<lparr> homepage = \<lparr> total_count = 1, unique_count = 1 \<rparr>,
             event_details = \<lparr> total_count = 0, unique_count = 0 \<rparr>,
             unique_events_viewed = 0 \<rparr>,
         api_usage = \<lparr> total_api_calls = 0, calendar_requests = 0, location_searches = 0 \<rparr>,
         external_clicks =
           \<lparr> visit_store_clicks = \<lparr> total_count = 0, unique_count = 0 \<rparr>,
             note_text = Some ''Requires /visit tracking endpoint'' \<rparr>,
         daily_stats = [(''2024-01-05'', \<lparr> requests = 1, day_unique_visitors = 1 \<rparr>)],
         top_pages = [(''/'', 1)],
         top_edge_locations = [(''IAD89-C1'', 1)],
         browsers = [(''Chrome'', 1)] \<rparr>)"
proof -
  have hf: "list_all has_fields [example_record]"
    by (simp add: example_record_def has_fields_record_of_parts)
  have ne: "[example_record] \<noteq> []"
    by simp
  show ?thesis
    unfolding analyze_logs_Metrics [OF ne hf]
    by (simp add: example_record_fields example_visitor example_browser
        event_pattern_match_def visit_pattern_search_def suffix_to_prefix LF_def
        counts_of_def daily_step_def sorted_by_count_desc_def dict_of_items_def)
qed

subsection \<open>Browsers\<close>

lemma sublist_map_iff: "sublist x (map f ys) \<longleftrightarrow> (\<exists>w. sublist w ys \<and> map f w = x)"
proof
  assume "sublist x (map f ys)"
  then obtain ps ss where "map f ys = ps @ x @ ss"
    by (auto simp: sublist_def)
  then have "\<exists>us vs. ys = us @ vs \<and> ps = map f us \<and> x @ ss = map f vs"
    by (simp only: map_eq_append_conv)
  then obtain us vs where ys: "ys = us @ vs" and vs: "x @ ss = map f vs"
    by blast
  from vs have "\<exists>w ts. vs = w @ ts \<and> x = map f w \<and> ss = map f ts"
    by (simp only: append_eq_map_conv)
  then obtain w ts where "vs = w @ ts" and "map f w = x"
    by auto
  with ys have "ys = us @ w @ ts" and "map f w = x"
    by simp_all
  then show "\<exists>w. sublist w ys \<and> map f w = x"
    unfolding sublist_def by blast
next
  assume "\<exists>w. sublist w ys \<and> map f w = x"
  then obtain w ps ss where "ys = ps @ w @ ss" and "map f w = x"
    by (auto simp: sublist_def)
  then have "map f ys = map f ps @ x @ map f ss"
    by simp
  then show "sublist x (map f ys)"
    unfolding sublist_def by blast
qed

lemma ex_or:
  "(\<exists>w. A w \<and> (f w = a \<or> f w = b)) \<longleftrightarrow> (\<exists>w. A w \<and> f w = a) \<or> (\<exists>w. A w \<and> f w = b)"
  by blast

lemma analyze_logs_browsers:
  assumes "records \<noteq> []" and "list_all has_fields records"
  shows "\<exists>m. analyze_logs records = Inr (Metrics m)
           \<and> browsers m = sort_key (\<lambda>x. - int (snd x))
                             (counts_of (map (\<lambda>r. browser_of (field_of ''user_agent'' r)) records))"
proof -
  let ?S = "sort_key (\<lambda>x :: string \<times> nat. - int (snd x))
              (counts_of (map (\<lambda>r. browser_of (field_of ''user_agent'' r)) records))"
  have "distinct (map fst ?S)"
    by (simp add: distinct_map_sort_key counts_of_distinct)
  then have "dict_of_items ?S = ?S"
    by (rule dict_of_items_distinct)
  then show ?thesis
    by (simp add: analyze_logs_Metrics [OF assms] sorted_by_count_desc_def)
qed

text \<open>
  C4. The browser of a user agent is one of the six names, chosen by the first test
  that holds: contains \<open>Chrome\<close>; contains \<open>Firefox\<close>; contains \<open>Safari\<close>; contains
  \<open>Edge\<close>; contains \<open>bot\<close> or \<open>crawler\<close> in any mix of capital and small letters;
  otherwise \<open>Other\<close>. A user agent with both \<open>Chrome\<close> and \<open>Safari\<close> is Chrome.
  In the report every record is counted under the browser of its user agent, once.
\<close>

theorem browser_classification:
  "browser_of ua \<in> {''Chrome'', ''Firefox'', ''Safari'', ''Edge'', ''Bot'', ''Other''}
   \<and> (browser_of ua = ''Chrome'' \<longleftrightarrow> sublist ''Chrome'' ua)
   \<and> (browser_of ua = ''Firefox'' \<longleftrightarrow> \<not> sublist ''Chrome'' ua \<and> sublist ''Firefox'' ua)
   \<and> (browser_of ua = ''Safari'' \<longleftrightarrow>
        \<not> sublist ''Chrome'' ua \<and> \<not> sublist ''Firefox'' ua \<and> sublist ''Safari'' ua)
   \<and> (browser_of ua = ''Edge'' \<longleftrightarrow>
        \<not> sublist ''Chrome'' ua \<and> \<not> sublist ''Firefox'' ua \<and> \<not> sublist ''Safari'' ua
        \<and> sublist ''Edge'' ua)
   \<and> (browser_of ua = ''Bot'' \<longleftrightarrow>
        \<not> sublist ''Chrome'' ua \<and> \<not> sublist ''Firefox'' ua \<and> \<not> sublist ''Safari'' ua
        \<and> \<not> sublist ''Edge'' ua
        \<and> (\<exists>w. sublist w ua \<and> (str_lower w = ''bot'' \<or> str_lower w = ''crawler'')))
   \<and> (browser_of ua = ''Other'' \<longleftrightarrow>
        \<not> sublist ''Chrome'' ua \<and> \<not> sublist ''Firefox'' ua \<and> \<not> sublist ''Safari'' ua
        \<and> \<not> sublist ''Edge'' ua
        \<and> \<not> (\<exists>w. sublist w ua \<and> (str_lower w = ''bot'' \<or> str_lower w = ''crawler'')))
   \<and> (sublist ''Chrome'' ua \<and> sublist ''Safari'' ua \<longrightarrow>
        browser_of ua = ''Chrome'' \<and> browser_of ua \<noteq> ''Safari'')
   \<and> (records \<noteq> [] \<and> list_all has_fields records \<longrightarrow>
        (\<exists>m. analyze_logs records = Inr (Metrics m)
           \<and> (\<forall>b n. (b, n) \<in> set (browsers m) \<longrightarrow>
                 n = length (filter (\<lambda>r. browser_of (field_of ''user_agent'' r) = b) records))
           \<and> sum_list (map snd (browsers m)) = length records))"
proof -
  have low: "(\<exists>w. sublist w ua \<and> (str_lower w = ''bot'' \<or> str_lower w = ''crawler''))
             \<longleftrightarrow> sublist ''bot'' (str_lower ua) \<or> sublist ''crawler'' (str_lower ua)"
    by (simp only: str_lower_def sublist_map_iff ex_or)
  have cls: "browser_of ua \<in> {''Chrome'', ''Firefox'', ''Safari'', ''Edge'', ''Bot'', ''Other''}"
    by (simp add: browser_of_def)
  have chrome: "browser_of ua = ''Chrome'' \<longleftrightarrow> sublist ''Chrome'' ua"
    by (simp add: browser_of_def)
  have firefox: "browser_of ua = ''Firefox'' \<longleftrightarrow> \<not> sublist ''Chrome'' ua \<and> sublist ''Firefox'' ua"
    by (simp add: browser_of_def)
  have safari: "browser_of ua = ''Safari'' \<longleftrightarrow>
        \<not> sublist ''Chrome'' ua \<and> \<not> sublist ''Firefox'' ua \<and> sublist ''Safari'' ua"
    by (simp add: browser_of_def)
  have edge: "browser_of ua = ''Edge'' \<longleftrightarrow>
        \<not> sublist ''Chrome'' ua \<and> \<not> sublist ''Firefox'' ua \<and> \<not> sublist ''Safari'' ua
        \<and> sublist ''Edge'' ua"
    by (simp add: browser_of_def)
  have bot: "browser_of ua = ''Bot'' \<longleftrightarrow>
        \<not> sublist ''Chrome'' ua \<and> \<not> sublist ''Firefox'' ua \<and> \<not> sublist ''Safari'' ua
        \<and> \<not> sublist ''Edge'' ua
        \<and> (\<exists>w. sublist w ua \<and> (str_lower w = ''bot'' \<or> str_lower w = ''crawler''))"
    unfolding low by (simp add: browser_of_def)
  have other: "browser_of ua = ''Other'' \<longleftrightarrow>
        \<not> sublist ''Chrome'' ua \<and> \<not> sublist ''Firefox'' ua \<and> \<not> sublist ''Safari'' ua
        \<and> \<not> sublist ''Edge'' ua
        \<and> \<not> (\<exists>w. sublist w ua \<and> (str_lower w = ''bot'' \<or> str_lower w = ''crawler''))"
    unfolding low by (simp add: browser_of_def)
  have both: "sublist ''Chrome'' ua \<and> sublist ''Safari'' ua \<longrightarrow>
        browser_of ua = ''Chrome'' \<and> browser_of ua \<noteq> ''Safari''"
    by (simp add: browser_of_def)
  have hist: "records \<noteq> [] \<and> list_all has_fields records \<longrightarrow>
        (\<exists>m. analyze_logs records = Inr (Metrics m)
           \<and> (\<forall>b n. (b, n) \<in> set (browsers m) \<longrightarrow>
                 n = length (filter (\<lambda>r. browser_of (field_of ''user_agent'' r) = b) records))
           \<and> sum_list (map snd (browsers m)) = length records)"
  proof (rule impI)
    assume ok: "records \<noteq> [] \<and> list_all has_fields records"
    let ?bs = "map (\<lambda>r. browser_of (field_of ''user_agent'' r)) records"
    from ok analyze_logs_browsers [of records] obtain m
      where m: "analyze_logs records = Inr (Metrics m)"
        and b: "browsers m = sort_key (\<lambda>x. - int (snd x)) (counts_of ?bs)"
      by blast
    have "n = length (filter (\<lambda>r. browser_of (field_of ''user_agent'' r) = b) records)"
      if "(b, n) \<in> set (browsers m)" for b n
    proof -
      from that have "(b, n) \<in> set (counts_of ?bs)"
        by (simp add: b)
      then have "map_of (counts_of ?bs) b = Some n"
        using counts_of_distinct [of ?bs] by simp
      then have "n = count_list ?bs b"
        by (simp add: counts_of_map_of split: if_splits)
      then show ?thesis
        by (simp add: count_list_map)
    qed
    moreover have "sum_list (map snd (browsers m)) = length records"
      by (simp add: b sum_list_sort_key counts_of_sum)
    ultimately show "\<exists>m. analyze_logs records = Inr (Metrics m)
           \<and> (\<forall>b n. (b, n) \<in> set (browsers m) \<longrightarrow>
                 n = length (filter (\<lambda>r. browser_of (field_of ''user_agent'' r) = b) records))
           \<and> sum_list (map snd (browsers m)) = length records"
      using m by blast
  qed
  show ?thesis
    by (intro conjI) (fact cls chrome firefox safari edge bot other both hist)+
qed

theorem browser_classification_witness:
  "sublist ''Chrome'' ''Mozilla/5.0%20Chrome/120.0%20Safari/537.36''
   \<and> sublist ''Safari'' ''Mozilla/5.0%20Chrome/120.0%20Safari/537.36''
   \<and> browser_of ''Mozilla/5.0%20Chrome/120.0%20Safari/537.36'' = ''Chrome''
   \<and> browser_of ''Mozilla/5.0%20Chrome/120.0%20Safari/537.36'' \<noteq> ''Safari''
   \<and> example_records \<noteq> [] \<and> list_all has_fields example_records
   \<and> (\<exists>m. analyze_logs example_records = Inr (Metrics m)
         \<and> sum_list (map snd (browsers m)) = length example_records)"
proof -
  have 1: "sublist ''Chrome'' ''Mozilla/5.0%20Chrome/120.0%20Safari/537.36''"
    and 2: "sublist ''Safari'' ''Mozilla/5.0%20Chrome/120.0%20Safari/537.36''"
    by (simp_all add: sublist_code)
  note t = browser_classification [of "''Mozilla/5.0%20Chrome/120.0%20Safari/537.36''" example_records]
  from t have "sublist ''Chrome'' ''Mozilla/5.0%20Chrome/120.0%20Safari/537.36''
          \<and> sublist ''Safari'' ''Mozilla/5.0%20Chrome/120.0%20Safari/537.36'' \<longrightarrow>
        browser_of ''Mozilla/5.0%20Chrome/120.0%20Safari/537.36'' = ''Chrome''
        \<and> browser_of ''Mozilla/5.0%20Chrome/120.0%20Safari/537.36'' \<noteq> ''Safari''"
    by (elim conjE)
  then have a: "browser_of ''Mozilla/5.0%20Chrome/120.0%20Safari/537.36'' = ''Chrome''
        \<and> browser_of ''Mozilla/5.0%20Chrome/120.0%20Safari/537.36'' \<noteq> ''Safari''"
    by (rule mp) (rule conjI [OF 1 2])
  from t have "example_records \<noteq> [] \<and> list_all has_fields example_records \<longrightarrow>
        (\<exists>m. analyze_logs example_records = Inr (Metrics m)
           \<and> (\<forall>b n. (b, n) \<in> set (browsers m) \<longrightarrow>
                 n = length (filter (\<lambda>r. browser_of (field_of ''user_agent'' r) = b) example_records))
           \<and> sum_list (map snd (browsers m)) = length example_records)"
    by (elim conjE)
  with example_records_ok obtain m where "analyze_logs example_records = Inr (Metrics m)"
    and "sum_list (map snd (browsers m)) = length example_records"
    by auto
  then have b: "\<exists>m. analyze_logs example_records = Inr (Metrics m)
         \<and> sum_list (map snd (browsers m)) = length example_records"
    by (intro exI conjI)
  show ?thesis
    by (intro conjI 1 2 a [THEN conjunct1] a [THEN conjunct2] example_records_ok b)
qed

end
